theory Spec2Isabelle
  imports Main "HOL-Library.Sublist"
begin

section \<open>Python text\<close>

text \<open>
  A Python \<open>str\<close> is a sequence of Unicode code points and \<open>len\<close> counts code points,
  so a text is a list of code points (natural numbers). ASCII literals of the source are
  written with \<open>str\<close>.
\<close>

type_synonym pystr = "nat list"

definition str :: "string \<Rightarrow> pystr" where
  "str s = map of_char s"

text \<open>The characters \<open>str.splitlines\<close> treats as line boundaries.\<close>

definition is_linebreak :: "nat \<Rightarrow> bool" where
  "is_linebreak c \<longleftrightarrow> c \<in> {10, 11, 12, 13, 28, 29, 30, 133, 8232, 8233}"

text \<open>The characters \<open>str.strip\<close> removes when called without argument.\<close>

definition is_space :: "nat \<Rightarrow> bool" where
  "is_space c \<longleftrightarrow>
     (9 \<le> c \<and> c \<le> 13) \<or> (28 \<le> c \<and> c \<le> 32) \<or> c = 133 \<or> c = 160 \<or> c = 5760 \<or>
     (8192 \<le> c \<and> c \<le> 8202) \<or> c = 8232 \<or> c = 8233 \<or> c = 8239 \<or> c = 8287 \<or> c = 12288"

text \<open>
  \<open>s.splitlines()\<close>: the lines of \<open>s\<close> without their terminators; \<open>\r\n\<close> is one
  terminator; a terminator at the very end opens no further line.
\<close>

fun splitlines :: "pystr \<Rightarrow> pystr list" where
  "splitlines [] = []"
| "splitlines (c # cs) =
     (if c = 13 then
        (case cs of
           [] \<Rightarrow> [[]]
         | d # ds \<Rightarrow> if d = 10 then [] # splitlines ds else [] # splitlines cs)
      else if is_linebreak c then [] # splitlines cs
      else (case splitlines cs of
              [] \<Rightarrow> [[c]]
            | l # ls \<Rightarrow> (c # l) # ls))"

text \<open>\<open>s.strip()\<close>.\<close>

definition strip :: "pystr \<Rightarrow> pystr" where
  "strip s = rev (dropWhile is_space (rev (dropWhile is_space s)))"

text \<open>\<open>sep.join(xs)\<close>.\<close>

fun join :: "pystr \<Rightarrow> pystr list \<Rightarrow> pystr" where
  "join sep [] = []"
| "join sep [x] = x"
| "join sep (x # y # ys) = x @ sep @ join sep (y # ys)"

text \<open>\<open>s.startswith(t)\<close> for a tuple \<open>t\<close> of prefixes.\<close>

definition startswith :: "pystr \<Rightarrow> pystr list \<Rightarrow> bool" where
  "startswith s ps \<longleftrightarrow> (\<exists>p \<in> set ps. prefix p s)"

abbreviation NL :: pystr where
  "NL \<equiv> [10]"

section \<open>The budget splitter\<close>

text \<open>
  The loop of \<open>split_large_chunk_by_token\<close>: the state is
  \<open>(small_chunks, buffer, buffer_len)\<close>.
\<close>

fun token_loop :: "int \<Rightarrow> pystr list \<Rightarrow> pystr list \<Rightarrow> pystr list \<Rightarrow> int \<Rightarrow> pystr list" where
  "token_loop max_chars [] small_chunks buffer buffer_len =
     (if buffer \<noteq> [] then small_chunks @ [join NL buffer] else small_chunks)"
| "token_loop max_chars (line # lines) small_chunks buffer buffer_len =
     (let line_len = int (length line) + 1 in
      if buffer_len + line_len > max_chars \<and> buffer \<noteq> []
      then token_loop max_chars lines (small_chunks @ [join NL buffer]) [line] line_len
      else token_loop max_chars lines small_chunks (buffer @ [line]) (buffer_len + line_len))"

definition APPROX_CHARS_PER_TOKEN :: int where
  "APPROX_CHARS_PER_TOKEN = 4"

definition MAX_TOKENS :: int where
  "MAX_TOKENS = 4000"

definition split_large_chunk_by_token :: "pystr \<Rightarrow> int \<Rightarrow> pystr list" where
  "split_large_chunk_by_token chunk max_tokens =
     (let max_chars = max_tokens * APPROX_CHARS_PER_TOKEN;
          lines = splitlines chunk
      in token_loop max_chars lines [] [] 0)"

section \<open>The structural splitter\<close>

text \<open>The tuple of prefixes passed to \<open>startswith\<close> in \<open>split_large_function\<close>.\<close>

definition KEYWORDS :: "pystr list" where
  "KEYWORDS = [str ''if '', str ''for '', str ''while '', str ''try'', str ''except'', str ''def '']"

definition is_boundary :: "pystr \<Rightarrow> bool" where
  "is_boundary line \<longleftrightarrow> startswith (strip line) KEYWORDS"

text \<open>The loop of \<open>split_large_function\<close>: the state is \<open>(chunks, buffer)\<close>.\<close>

fun function_loop :: "int \<Rightarrow> pystr list \<Rightarrow> pystr list \<Rightarrow> pystr list \<Rightarrow> pystr list" where
  "function_loop max_lines [] chunks buffer =
     (if buffer \<noteq> [] then chunks @ [join NL buffer] else chunks)"
| "function_loop max_lines (line # lines) chunks buffer =
     (let buffer' = buffer @ [line] in
      if is_boundary line \<and> int (length buffer') \<ge> max_lines
      then function_loop max_lines lines (chunks @ [join NL buffer']) []
      else function_loop max_lines lines chunks buffer')"

text \<open>
  \<open>split_large_function\<close> on the text \<open>code\<close> that \<open>ast.get_source_segment\<close>
  returns for the node.
\<close>

definition split_large_function :: "pystr \<Rightarrow> int \<Rightarrow> pystr list" where
  "split_large_function code max_lines =
     (let lines = splitlines code in
      if int (length lines) \<le> max_lines then [code]
      else function_loop max_lines lines [] [])"

section \<open>The syntax tree\<close>

text \<open>
  The tree that \<open>ast.parse\<close> returns, as far as \<open>DependencyGraphBuilder\<close> can tell its
  nodes apart. \<open>NodeVisitor.visit\<close> dispatches on the class of a node: the builder has a
  method for \<open>FunctionDef\<close> and for \<open>Call\<close>, every other class goes to
  \<open>generic_visit\<close>, which visits the child nodes in field order. A \<open>FunctionDef\<close>
  carries its name and its child nodes (arguments, body, decorators, return annotation);
  a \<open>Call\<close> carries its \<open>func\<close> node and its other child nodes (arguments and
  keywords); \<open>Name\<close> carries its \<open>id\<close> (its context node, which the visitor passes
  without effect, is left out); \<open>Other\<close> is a node of any other class (a class
  definition, an \<open>async def\<close>, an expression statement, an attribute access, a
  constant) with its child nodes.
\<close>

datatype node =
    FunctionDef pystr "node list"
  | Call node "node list"
  | Name pystr
  | Other "node list"

text \<open>
  A statement of \<open>tree.body\<close> together with the text that
  \<open>ast.get_source_segment(source, node)\<close> returns for it.
\<close>

datatype stmt = Stmt (tree: node) (segment: pystr)

section \<open>The call graph\<close>

text \<open>
  A \<open>networkx.DiGraph\<close>: nodes and edges are kept once each, in insertion order;
  \<open>add_edge\<close> adds both end points as nodes when they are missing.
\<close>

record digraph =
  nodes :: "pystr list"
  edges :: "(pystr \<times> pystr) list"

definition empty_graph :: digraph where
  "empty_graph = \<lparr>nodes = [], edges = []\<rparr>"

definition add_node :: "digraph \<Rightarrow> pystr \<Rightarrow> digraph" where
  "add_node g n = (if n \<in> set (nodes g) then g else g\<lparr>nodes := nodes g @ [n]\<rparr>)"

definition add_edge :: "digraph \<Rightarrow> pystr \<Rightarrow> pystr \<Rightarrow> digraph" where
  "add_edge g u v =
     (let g' = add_node (add_node g u) v in
      if (u, v) \<in> set (edges g') then g' else g'\<lparr>edges := edges g' @ [(u, v)]\<rparr>)"

text \<open>The state of a \<open>DependencyGraphBuilder\<close>.\<close>

record builder =
  graph :: digraph
  current_function :: "pystr option"

text \<open>
  The first statement of \<open>visit_Call\<close>: an edge is added when \<open>node.func\<close> is a
  \<open>Name\<close> and \<open>self.current_function\<close> is truthy (neither \<open>None\<close> nor the empty
  string).
\<close>

definition visit_Call_edge :: "node \<Rightarrow> builder \<Rightarrow> builder" where
  "visit_Call_edge func b =
     (case func of
        Name callee \<Rightarrow>
          (case current_function b of
             Some cur \<Rightarrow> if cur \<noteq> [] then b\<lparr>graph := add_edge (graph b) cur callee\<rparr> else b
           | None \<Rightarrow> b)
      | _ \<Rightarrow> b)"

text \<open>
  \<open>visit\<close> with the two methods of the builder, and \<open>generic_visit\<close> on the list of
  child nodes. \<open>visit_FunctionDef\<close> assigns \<open>current_function\<close> and does not restore it
  after the children have been visited.
\<close>

fun visit :: "node \<Rightarrow> builder \<Rightarrow> builder"
  and generic_visit :: "node list \<Rightarrow> builder \<Rightarrow> builder" where
  "visit (FunctionDef name children) b =
     generic_visit children (b\<lparr>current_function := Some name, graph := add_node (graph b) name\<rparr>)"
| "visit (Call func children) b = generic_visit (func # children) (visit_Call_edge func b)"
| "visit (Name i) b = b"
| "visit (Other children) b = generic_visit children b"
| "generic_visit [] b = b"
| "generic_visit (child # children) b = generic_visit children (visit child b)"

text \<open>\<open>builder.visit(tree)\<close> on the module, then \<open>builder.graph\<close>.\<close>

definition build_graph :: "stmt list \<Rightarrow> digraph" where
  "build_graph body =
     graph (generic_visit (map tree body) \<lparr>graph = empty_graph, current_function = None\<rparr>)"

section \<open>Strongly connected components\<close>

text \<open>
  \<open>networkx.strongly_connected_components\<close> is a library function: it yields every
  strongly connected component of the graph once, as a set of nodes, in an order the
  library chooses; the order in which a Python set is iterated is not fixed either. The
  function is a parameter of \<open>chunk_code\<close> below, returning each component as the list
  of its nodes in iteration order, and \<open>is_scc_listing\<close> says what the library
  guarantees of its result.
\<close>

definition mutually_reachable :: "digraph \<Rightarrow> pystr \<Rightarrow> pystr \<Rightarrow> bool" where
  "mutually_reachable g u v \<longleftrightarrow>
     u = v \<or> ((u, v) \<in> (set (edges g))\<^sup>+ \<and> (v, u) \<in> (set (edges g))\<^sup>+)"

definition component_of :: "digraph \<Rightarrow> pystr \<Rightarrow> pystr set" where
  "component_of g u = {v \<in> set (nodes g). mutually_reachable g u v}"

definition is_scc_listing :: "digraph \<Rightarrow> pystr list list \<Rightarrow> bool" where
  "is_scc_listing g cs \<longleftrightarrow>
     set (map set cs) = component_of g ` set (nodes g) \<and> distinct (map set cs) \<and>
     (\<forall>c \<in> set cs. distinct c)"

section \<open>The chunker\<close>

datatype error = ParseError

text \<open>The dictionary \<open>func_nodes\<close>: a later definition of a name replaces an earlier one.\<close>

definition func_nodes :: "stmt list \<Rightarrow> (pystr \<rightharpoonup> stmt)" where
  "func_nodes body =
     fold (\<lambda>st m. case tree st of FunctionDef name _ \<Rightarrow> m(name \<mapsto> st) | _ \<Rightarrow> m) body Map.empty"

definition is_FunctionDef :: "node \<Rightarrow> bool" where
  "is_FunctionDef n = (case n of FunctionDef _ _ \<Rightarrow> True | _ \<Rightarrow> False)"

text \<open>The text \<open>full_code\<close> built for one cluster.\<close>

definition full_code :: "(pystr \<rightharpoonup> stmt) \<Rightarrow> pystr list \<Rightarrow> pystr" where
  "full_code fn cluster =
     concat (map (\<lambda>func_name. case fn func_name of
                                   Some st \<Rightarrow> segment st @ NL @ NL
                                 | None \<Rightarrow> []) cluster)"

text \<open>The chunks one cluster appends to \<open>chunks\<close>.\<close>

definition cluster_chunks :: "(pystr \<rightharpoonup> stmt) \<Rightarrow> pystr list \<Rightarrow> pystr list" where
  "cluster_chunks fn cluster =
     (if length (splitlines (full_code fn cluster)) > 100
      then concat (map (\<lambda>func_name. case fn func_name of
                                         Some st \<Rightarrow> split_large_function (segment st) 50
                                       | None \<Rightarrow> []) cluster)
      else [strip (full_code fn cluster)])"

definition global_code :: "stmt list \<Rightarrow> pystr" where
  "global_code body =
     concat (map (\<lambda>st. if is_FunctionDef (tree st) then [] else segment st @ NL @ NL) body)"

text \<open>\<open>chunks.insert(0, global_code.strip())\<close> when that text is not empty.\<close>

definition with_global :: "stmt list \<Rightarrow> pystr list \<Rightarrow> pystr list" where
  "with_global body chunks =
     (if strip (global_code body) \<noteq> [] then strip (global_code body) # chunks else chunks)"

text \<open>The fallback.\<close>

definition with_fallback :: "pystr \<Rightarrow> pystr list \<Rightarrow> pystr list" where
  "with_fallback source chunks = (if chunks = [] then [strip source] else chunks)"

text \<open>The last loop: a chunk longer than the budget is replaced by its sub-chunks.\<close>

definition final_chunks :: "pystr list \<Rightarrow> pystr list" where
  "final_chunks chunks =
     concat (map (\<lambda>c. if int (length c) > MAX_TOKENS * APPROX_CHARS_PER_TOKEN
                          then split_large_chunk_by_token c MAX_TOKENS else [c]) chunks)"

text \<open>
  \<open>chunk_code\<close>. The two library calls are parameters: \<open>parse\<close> stands for
  \<open>ast.parse\<close> (\<open>None\<close> when it raises) and gives the statements of the module with
  their source segments; \<open>strongly_connected_components\<close> gives the clusters.
\<close>

definition chunk_code ::
  "(pystr \<Rightarrow> stmt list option) \<Rightarrow> (digraph \<Rightarrow> pystr list list) \<Rightarrow> pystr \<Rightarrow> error + pystr list" where
  "chunk_code parse strongly_connected_components source =
     (case parse source of
        None \<Rightarrow> Inl ParseError
      | Some body \<Rightarrow>
          (let clusters = strongly_connected_components (build_graph body);
               chunks = concat (map (cluster_chunks (func_nodes body)) clusters)
           in Inr (final_chunks (with_fallback source (with_global body chunks)))))"

text \<open>
  What the parser guarantees of the segments, as far as the properties below need it:
  the text of every statement is a contiguous part of the source, and it begins and ends
  with a character of a token, which is not whitespace.
\<close>

definition segments_within :: "pystr \<Rightarrow> stmt list \<Rightarrow> bool" where
  "segments_within source body \<longleftrightarrow>
     (\<forall>st \<in> set body. sublist (segment st) source \<and> segment st \<noteq> []
        \<and> \<not> is_space (hd (segment st)) \<and> \<not> is_space (last (segment st)))"

text \<open>The text of a statement begins and ends with a character that is not whitespace.\<close>

definition token_ended :: "stmt \<Rightarrow> bool" where
  "token_ended st \<longleftrightarrow>
     segment st \<noteq> [] \<and> \<not> is_space (hd (segment st)) \<and> \<not> is_space (last (segment st))"

section \<open>Names occurring in a tree\<close>

text \<open>
  The callee names of the calls of a simple name in a tree, and the names of the function
  definitions in it, both in visiting order.
\<close>

fun simple_calls :: "node \<Rightarrow> pystr list"
  and simple_calls_list :: "node list \<Rightarrow> pystr list" where
  "simple_calls (FunctionDef name children) = simple_calls_list children"
| "simple_calls (Call func children) =
     (case func of Name callee \<Rightarrow> [callee] | _ \<Rightarrow> []) @ simple_calls_list (func # children)"
| "simple_calls (Name i) = []"
| "simple_calls (Other children) = simple_calls_list children"
| "simple_calls_list [] = []"
| "simple_calls_list (child # children) = simple_calls child @ simple_calls_list children"

fun def_names :: "node \<Rightarrow> pystr list"
  and def_names_list :: "node list \<Rightarrow> pystr list" where
  "def_names (FunctionDef name children) = name # def_names_list children"
| "def_names (Call func children) = def_names_list (func # children)"
| "def_names (Name i) = []"
| "def_names (Other children) = def_names_list children"
| "def_names_list [] = []"
| "def_names_list (child # children) = def_names child @ def_names_list children"

text \<open>Python's truth value of \<open>self.current_function\<close>.\<close>

definition truthy :: "pystr option \<Rightarrow> bool" where
  "truthy cur = (case cur of Some c \<Rightarrow> c \<noteq> [] | None \<Rightarrow> False)"

section \<open>The groups of lines behind the chunks\<close>

text \<open>
  Both splitters join a buffer of lines into each chunk. The functions below return the
  buffers themselves (the groups of lines), so that properties of the chunks can be
  stated on the lines they hold.
\<close>

fun token_groups :: "int \<Rightarrow> pystr list \<Rightarrow> pystr list \<Rightarrow> int \<Rightarrow> pystr list list" where
  "token_groups max_chars [] buffer buffer_len = (if buffer \<noteq> [] then [buffer] else [])"
| "token_groups max_chars (line # lines) buffer buffer_len =
     (if buffer_len + (int (length line) + 1) > max_chars \<and> buffer \<noteq> []
      then buffer # token_groups max_chars lines [line] (int (length line) + 1)
      else token_groups max_chars lines (buffer @ [line]) (buffer_len + (int (length line) + 1)))"

definition cost :: "pystr list \<Rightarrow> int" where
  "cost g = (\<Sum>l\<leftarrow>g. int (length l) + 1)"

fun function_groups :: "int \<Rightarrow> pystr list \<Rightarrow> pystr list \<Rightarrow> pystr list list" where
  "function_groups max_lines [] buffer = (if buffer \<noteq> [] then [buffer] else [])"
| "function_groups max_lines (line # lines) buffer =
     (if is_boundary line \<and> int (length (buffer @ [line])) \<ge> max_lines
      then (buffer @ [line]) # function_groups max_lines lines []
      else function_groups max_lines lines (buffer @ [line]))"

section \<open>The statements as the specification words them\<close>

text \<open>
  The edges as the specification describes them: every call of a simple name inside a
  top-level function, nested definitions included, is attributed to that top-level
  function, and statements outside function definitions give no edge.
\<close>

definition claimed_edges :: "stmt list \<Rightarrow> (pystr \<times> pystr) list" where
  "claimed_edges body =
     remdups (concat (map (\<lambda>st. case tree st of
                                  FunctionDef name children \<Rightarrow> map (Pair name) (simple_calls_list children)
                                | _ \<Rightarrow> []) body))"

text \<open>
  The structural splitter as the specification describes it: a line is a boundary when,
  with its leading whitespace removed, it starts with one of the keywords.
\<close>

definition CLAIMED_KEYWORDS :: "pystr list" where
  "CLAIMED_KEYWORDS = [str ''if'', str ''for'', str ''while'', str ''try'', str ''except'', str ''def'']"

definition claimed_boundary :: "pystr \<Rightarrow> bool" where
  "claimed_boundary line \<longleftrightarrow> startswith (dropWhile is_space line) CLAIMED_KEYWORDS"

fun claimed_loop :: "int \<Rightarrow> pystr list \<Rightarrow> pystr list \<Rightarrow> pystr list \<Rightarrow> pystr list" where
  "claimed_loop max_lines [] chunks buffer =
     (if buffer \<noteq> [] then chunks @ [join NL buffer] else chunks)"
| "claimed_loop max_lines (line # lines) chunks buffer =
     (if claimed_boundary line \<and> int (length (buffer @ [line])) \<ge> max_lines
      then claimed_loop max_lines lines (chunks @ [join NL (buffer @ [line])]) []
      else claimed_loop max_lines lines chunks (buffer @ [line]))"

definition claimed_split_large_function :: "pystr \<Rightarrow> int \<Rightarrow> pystr list" where
  "claimed_split_large_function code max_lines =
     (if int (length (splitlines code)) \<le> max_lines then [code]
      else claimed_loop max_lines (splitlines code) [] [])"

section \<open>Where the structural splitter flushes\<close>

text \<open>
  Line \<open>i\<close> of a group (counted from 0) flushes when it is a boundary line and the
  buffer, this line included, has reached the budget. A list of groups is the result of
  the scan exactly when the groups partition the lines, every group but the last ends in
  a flushing line, and no line before the end of a group flushes.
\<close>

definition flushes :: "int \<Rightarrow> pystr list \<Rightarrow> nat \<Rightarrow> bool" where
  "flushes max_lines g i \<longleftrightarrow> is_boundary (g ! i) \<and> int (i + 1) \<ge> max_lines"

definition flush_partition :: "int \<Rightarrow> pystr list \<Rightarrow> pystr list list \<Rightarrow> bool" where
  "flush_partition max_lines lines gs \<longleftrightarrow>
     concat gs = lines \<and> [] \<notin> set gs \<and>
     (\<forall>g \<in> set (butlast gs). flushes max_lines g (length g - 1)) \<and>
     (\<forall>g \<in> set gs. \<forall>i. i + 1 < length g \<longrightarrow> \<not> flushes max_lines g i)"

section \<open>Example programs\<close>

text \<open>
  The module \<^verbatim>\<open>def f(): print()\<close>: one function whose body calls a builtin. The first
  child of the definition is its (empty) arguments node, the second the expression
  statement holding the call.
\<close>

definition prog_print :: "stmt list" where
  "prog_print =
     [Stmt (FunctionDef (str ''f'') [Other [], Other [Call (Name (str ''print'')) []]])
           (str ''def f(): print()'')]"

text \<open>
  A module that is one expression statement on one line of 16001 characters (a name).
\<close>

definition long_line :: pystr where
  "long_line = replicate 16001 97"

definition prog_long :: "stmt list" where
  "prog_long = [Stmt (Other [Name long_line]) long_line]"

text \<open>
  A function \<open>outer\<close> whose body defines \<open>inner\<close>, which calls \<open>g\<close>.
\<close>

definition prog_nested :: "stmt list" where
  "prog_nested =
     [Stmt (FunctionDef (str ''outer'')
              [Other [],
               FunctionDef (str ''inner'') [Other [], Other [Call (Name (str ''g'')) []]]])
           (str ''def outer():\<newline>    def inner():\<newline>        g()'')]"

text \<open>A function \<open>f\<close> followed by a call \<open>h()\<close> at module level.\<close>

definition prog_late_call :: "stmt list" where
  "prog_late_call =
     [Stmt (FunctionDef (str ''f'') [Other [], Other []]) (str ''def f(): pass''),
      Stmt (Other [Call (Name (str ''h'')) []]) (str ''h()'')]"

text \<open>
  A function of 120 lines whose line 55 is an \<open>if\<close> statement; no other line from line
  50 on starts with one of the prefixes.
\<close>

definition lines120 :: "pystr list" where
  "lines120 = [str ''def f(x):''] @ replicate 53 (str ''    x = x + 1'') @ [str ''    if x:'']
              @ replicate 65 (str ''        x = x - 1'')"

definition code120 :: pystr where
  "code120 = join NL lines120"

text \<open>
  A function of exactly 100 lines: two statements with a string literal over many
  lines each, the second one under an \<open>if\<close> on line 55. The first 55 lines and the
  last 45 lines are given apart.
\<close>

definition triple_quote :: pystr where
  "triple_quote = [34, 34, 34]"

definition part1_100 :: "pystr list" where
  "part1_100 = [str ''def f(x):'', str ''    y = '' @ triple_quote] @ replicate 51 (str ''a'')
               @ [str ''    '' @ triple_quote, str ''    if x:'']"

definition part2_100 :: "pystr list" where
  "part2_100 = [str ''        return '' @ triple_quote] @ replicate 43 (str ''a'')
               @ [str ''        '' @ triple_quote]"

definition code100 :: pystr where
  "code100 = join NL (part1_100 @ part2_100)"

definition prog100 :: "stmt list" where
  "prog100 =
     [Stmt (FunctionDef (str ''f'')
              [Other [Other []],
               Other [Name (str ''y''), Other []],
               Other [Name (str ''x''), Other [Other []]]])
           code100]"

text \<open>The module \<^verbatim>\<open>def x(): pass\<close>.\<close>

definition prog_pass :: "stmt list" where
  "prog_pass = [Stmt (FunctionDef (str ''x'') [Other [], Other []]) (str ''def x(): pass'')]"

section \<open>Properties of the text operations\<close>

lemma is_linebreak_13: "is_linebreak 13"
  by (simp add: is_linebreak_def)

lemma splitlines_crlf: "splitlines (13 # 10 # ds) = [] # splitlines ds"
  by simp

lemma splitlines_break:
  "is_linebreak c \<Longrightarrow> \<not> (c = 13 \<and> (\<exists>ds. cs = 10 # ds)) \<Longrightarrow> splitlines (c # cs) = [] # splitlines cs"
  by (cases cs) auto

lemma splitlines_char:
  "\<not> is_linebreak c \<Longrightarrow>
   splitlines (c # cs) = (case splitlines cs of [] \<Rightarrow> [[c]] | l # ls \<Rightarrow> (c # l) # ls)"
  using is_linebreak_13 by auto

lemma splitlines_no_break:
  "l \<in> set (splitlines s) \<Longrightarrow> c \<in> set l \<Longrightarrow> \<not> is_linebreak c"
proof (induction s arbitrary: l rule: splitlines.induct)
  case 1
  then show ?case by simp
next
  case (2 d cs)
  show ?case
  proof (cases "is_linebreak d")
    case brk: True
    show ?thesis
    proof (cases "d = 13 \<and> (\<exists>ds. cs = 10 # ds)")
      case True
      then obtain ds where cs: "cs = 10 # ds" and d: "d = 13" by blast
      from "2.prems" have "l = [] \<or> l \<in> set (splitlines ds)"
        unfolding cs d splitlines_crlf by simp
      with "2.IH"(1)[OF d cs] "2.prems"(2) show ?thesis by auto
    next
      case False
      from "2.prems" have l: "l = [] \<or> l \<in> set (splitlines cs)"
        unfolding splitlines_break[OF brk False] by simp
      show ?thesis
      proof (cases "d = 13")
        case True
        show ?thesis
        proof (cases cs)
          case Nil
          with l "2.prems"(2) show ?thesis by auto
        next
          case (Cons e es)
          with False True have "e \<noteq> 10" by simp
          from "2.IH"(2)[OF True Cons this] l "2.prems"(2) show ?thesis by auto
        qed
      next
        case False
        from "2.IH"(3)[OF False brk] l "2.prems"(2) show ?thesis by auto
      qed
    qed
  next
    case False
    then have d13: "d \<noteq> 13" using is_linebreak_13 by auto
    note IH = "2.IH"(4)[OF d13 False]
    show ?thesis
    proof (cases "splitlines cs")
      case Nil
      with "2.prems" False show ?thesis
        unfolding splitlines_char[OF False] by auto
    next
      case (Cons l' ls)
      with "2.prems" have "l = d # l' \<or> l \<in> set ls"
        unfolding splitlines_char[OF False] by auto
      then show ?thesis
      proof
        assume "l = d # l'"
        with "2.prems"(2) have "c = d \<or> c \<in> set l'" by auto
        then show ?thesis using False IH[of l'] Cons by auto
      next
        assume "l \<in> set ls"
        then show ?thesis using IH[of l] Cons "2.prems"(2) by auto
      qed
    qed
  qed
qed

lemma splitlines_single:
  "\<forall>c\<in>set s. \<not> is_linebreak c \<Longrightarrow> s \<noteq> [] \<Longrightarrow> splitlines s = [s]"
proof (induction s)
  case Nil
  then show ?case by simp
next
  case (Cons c cs)
  then have nb: "\<not> is_linebreak c" by simp
  show ?case
  proof (cases cs)
    case Nil
    then show ?thesis unfolding splitlines_char[OF nb] by simp
  next
    case (Cons d ds)
    with Cons.IH Cons.prems have "splitlines cs = [cs]" by simp
    then show ?thesis unfolding splitlines_char[OF nb] by simp
  qed
qed

lemma splitlines_Nil_iff: "splitlines s = [] \<longleftrightarrow> s = []"
proof (cases s)
  case Nil
  then show ?thesis by simp
next
  case (Cons c cs)
  show ?thesis
  proof (cases "is_linebreak c")
    case True
    then show ?thesis
      using splitlines_break[OF True, of cs] splitlines_crlf Cons by (cases "c = 13 \<and> (\<exists>ds. cs = 10 # ds)") auto
  next
    case False
    then show ?thesis unfolding Cons splitlines_char[OF False] by (simp split: list.splits)
  qed
qed

lemma join_splitlines:
  "\<forall>c\<in>set s. is_linebreak c \<longrightarrow> c = 10 \<Longrightarrow> s = [] \<or> last s \<noteq> 10 \<Longrightarrow> join NL (splitlines s) = s"
proof (induction s)
  case Nil
  then show ?case by simp
next
  case (Cons c cs)
  have lb10: "is_linebreak 10" by (simp add: is_linebreak_def)
  show ?case
  proof (cases "is_linebreak c")
    case True
    with Cons.prems have c: "c = 10" by simp
    with Cons.prems have cs: "cs \<noteq> []" by auto
    with Cons.prems have IH: "join NL (splitlines cs) = cs" using Cons.IH by auto
    from cs have "splitlines cs \<noteq> []" by (simp only: splitlines_Nil_iff not_False_eq_True)
    then obtain l ls where sl: "splitlines cs = l # ls" by (cases "splitlines cs") auto
    have "splitlines (c # cs) = [] # splitlines cs"
      using splitlines_break[OF True, of cs] c by simp
    then show ?thesis using IH sl c by simp
  next
    case False
    show ?thesis
    proof (cases cs)
      case Nil
      then show ?thesis unfolding splitlines_char[OF False] by simp
    next
      case (Cons d ds)
      with Cons.prems have IH: "join NL (splitlines cs) = cs" using Cons.IH by auto
      from Cons have "cs \<noteq> []" by simp
      then have "splitlines cs \<noteq> []" by (simp only: splitlines_Nil_iff not_False_eq_True)
      then obtain l ls where sl: "splitlines cs = l # ls" by (cases "splitlines cs") auto
      show ?thesis unfolding splitlines_char[OF False] using IH sl by (cases ls) auto
    qed
  qed
qed

section \<open>Properties of the two splitters\<close>

lemma token_loop_groups:
  "token_loop m lines sc buf bl = sc @ map (join NL) (token_groups m lines buf bl)"
  by (induction lines arbitrary: sc buf bl) (simp_all add: Let_def)

lemma token_groups_concat: "concat (token_groups m lines buf bl) = buf @ lines"
  by (induction lines arbitrary: buf bl) simp_all

lemma token_groups_nonempty: "[] \<notin> set (token_groups m lines buf bl)"
  by (induction lines arbitrary: buf bl) auto

lemma token_groups_bound:
  "bl = cost buf \<Longrightarrow> length buf \<le> 1 \<or> bl \<le> m \<Longrightarrow> g \<in> set (token_groups m lines buf bl)
   \<Longrightarrow> length g = 1 \<or> cost g \<le> m"
proof (induction lines arbitrary: buf bl)
  case Nil
  then show ?case by (cases buf) (auto split: if_splits simp: cost_def)
next
  case (Cons line lines)
  show ?case
  proof (cases "bl + (int (length line) + 1) > m \<and> buf \<noteq> []")
    case True
    with Cons.prems(3) have "g = buf \<or> g \<in> set (token_groups m lines [line] (int (length line) + 1))"
      by simp
    then show ?thesis
    proof
      assume "g = buf"
      with Cons.prems True show ?thesis by (cases buf) auto
    next
      assume "g \<in> set (token_groups m lines [line] (int (length line) + 1))"
      then show ?thesis
        by (rule Cons.IH[rotated 2]) (simp_all add: cost_def)
    qed
  next
    case False
    with Cons.prems(3) have g: "g \<in> set (token_groups m lines (buf @ [line]) (bl + (int (length line) + 1)))"
      by auto
    show ?thesis
    proof (rule Cons.IH[OF _ _ g])
      show "bl + (int (length line) + 1) = cost (buf @ [line])"
        using Cons.prems(1) by (simp add: cost_def)
      show "length (buf @ [line]) \<le> 1 \<or> bl + (int (length line) + 1) \<le> m"
        using False by auto
    qed
  qed
qed

lemma join_append:
  "xs \<noteq> [] \<Longrightarrow> ys \<noteq> [] \<Longrightarrow> join sep (xs @ ys) = join sep xs @ sep @ join sep ys"
  by (induction sep xs rule: join.induct) (auto simp: neq_Nil_conv)

lemma join_map_join:
  "[] \<notin> set gs \<Longrightarrow> join sep (map (join sep) gs) = join sep (concat gs)"
proof (induction gs)
  case Nil
  then show ?case by simp
next
  case (Cons g gs)
  show ?case
  proof (cases gs)
    case Nil
    then show ?thesis by simp
  next
    case (Cons h hs)
    with Cons.prems have ne: "g \<noteq> []" "concat gs \<noteq> []" by auto
    from Cons.prems Cons.IH have IH: "join sep (map (join sep) gs) = join sep (concat gs)" by simp
    show ?thesis using IH join_append[OF ne, of sep] Cons by simp
  qed
qed

lemma length_join_NL: "g \<noteq> [] \<Longrightarrow> int (length (join NL g)) = cost g - 1"
  by (induction NL g rule: join.induct) (simp_all add: cost_def)

lemma function_loop_groups:
  "function_loop n lines chunks buf = chunks @ map (join NL) (function_groups n lines buf)"
  by (induction lines arbitrary: chunks buf) (simp_all add: Let_def)

lemma function_groups_concat: "concat (function_groups n lines buf) = buf @ lines"
  by (induction lines arbitrary: buf) simp_all

lemma function_groups_nonempty: "[] \<notin> set (function_groups n lines buf)"
  by (induction lines arbitrary: buf) auto

section \<open>The round trip of the budget splitter\<close>

text \<open>
  Claim C9. For a chunk whose only line terminators are newline characters and which does
  not end in a newline, joining the sub-chunks of \<open>split_large_chunk_by_token\<close> with a
  newline gives back the chunk.
\<close>

theorem split_large_chunk_by_token_roundtrip:
  assumes "\<forall>c\<in>set chunk. is_linebreak c \<longrightarrow> c = 10"
    and "chunk = [] \<or> last chunk \<noteq> 10"
  shows "join NL (split_large_chunk_by_token chunk max_tokens) = chunk"
proof -
  let ?gs = "token_groups (max_tokens * APPROX_CHARS_PER_TOKEN) (splitlines chunk) [] 0"
  have "join NL (split_large_chunk_by_token chunk max_tokens) = join NL (map (join NL) ?gs)"
    by (simp add: split_large_chunk_by_token_def token_loop_groups)
  also have "\<dots> = join NL (concat ?gs)"
    by (rule join_map_join) (rule token_groups_nonempty)
  also have "\<dots> = join NL (splitlines chunk)"
    by (simp add: token_groups_concat)
  also have "\<dots> = chunk"
    using assms by (rule join_splitlines)
  finally show ?thesis .
qed

theorem split_large_chunk_by_token_roundtrip_witness:
  "split_large_chunk_by_token (str ''ab\<newline>cde\<newline>f'') 1 = [str ''ab'', str ''cde'', str ''f'']
   \<and> join NL (split_large_chunk_by_token (str ''ab\<newline>cde\<newline>f'') 1) = str ''ab\<newline>cde\<newline>f''"
proof
  show "split_large_chunk_by_token (str ''ab\<newline>cde\<newline>f'') 1 = [str ''ab'', str ''cde'', str ''f'']"
    by (simp add: split_large_chunk_by_token_def str_def is_linebreak_def APPROX_CHARS_PER_TOKEN_def)
  show "join NL (split_large_chunk_by_token (str ''ab\<newline>cde\<newline>f'') 1) = str ''ab\<newline>cde\<newline>f''"
    by (rule split_large_chunk_by_token_roundtrip) (simp_all add: str_def is_linebreak_def)
qed

section \<open>Properties of the call graph and of the chunker\<close>

lemma nodes_add_node: "set (nodes (add_node g n)) = insert n (set (nodes g))"
  by (auto simp: add_node_def)

lemma edges_add_node: "edges (add_node g n) = edges g"
  by (simp add: add_node_def)

lemma nodes_add_edge: "set (nodes (add_edge g u v)) = insert u (insert v (set (nodes g)))"
  by (auto simp: add_edge_def Let_def nodes_add_node)

lemma edges_add_edge: "set (edges (add_edge g u v)) = insert (u, v) (set (edges g))"
  by (auto simp: add_edge_def Let_def edges_add_node)

lemma nodes_visit_Call_edge:
  "set (nodes (graph b)) \<subseteq> set (nodes (graph (visit_Call_edge func b)))"
  by (auto simp: visit_Call_edge_def nodes_add_edge split: node.splits option.splits)

lemma nodes_visit_mono:
  "set (nodes (graph b)) \<subseteq> set (nodes (graph (visit n b)))"
  "set (nodes (graph b)) \<subseteq> set (nodes (graph (generic_visit ns b)))"
proof (induction n b and ns b rule: visit_generic_visit.induct)
  case (1 name children b)
  then show ?case by (auto simp: nodes_add_node)
next
  case (2 func children b)
  then show ?case using nodes_visit_Call_edge[of b func] by auto
next
  case (6 child children b)
  then show ?case by auto
qed simp_all

lemma visit_FunctionDef_node:
  "name \<in> set (nodes (graph (visit (FunctionDef name children) b)))"
  using nodes_visit_mono(2)[of "b\<lparr>current_function := Some name, graph := add_node (graph b) name\<rparr>" children]
  by (auto simp: nodes_add_node)

lemma generic_visit_append:
  "generic_visit (xs @ ys) b = generic_visit ys (generic_visit xs b)"
  by (induction xs arbitrary: b) simp_all

lemma generic_visit_member:
  "FunctionDef name children \<in> set ns \<Longrightarrow> name \<in> set (nodes (graph (generic_visit ns b)))"
proof -
  assume "FunctionDef name children \<in> set ns"
  then obtain xs ys where ns: "ns = xs @ FunctionDef name children # ys"
    by (auto simp: in_set_conv_decomp)
  show ?thesis
    unfolding ns generic_visit_append
    using visit_FunctionDef_node[of name children "generic_visit xs b"]
      nodes_visit_mono(2)[of "visit (FunctionDef name children) (generic_visit xs b)" ys]
    by auto
qed

lemma dom_func_nodes_fold:
  "dom (fold (\<lambda>st m. case tree st of FunctionDef name _ \<Rightarrow> m(name \<mapsto> st) | _ \<Rightarrow> m) body m0)
   = dom m0 \<union> {name. \<exists>children. FunctionDef name children \<in> tree ` set body}"
proof (induction body arbitrary: m0)
  case Nil
  then show ?case by simp
next
  case (Cons st body)
  show ?case
    by (cases "tree st") (auto simp: Cons.IH split: if_splits)
qed

lemma dom_func_nodes:
  "dom (func_nodes body) = {name. \<exists>children. FunctionDef name children \<in> tree ` set body}"
  by (simp add: func_nodes_def dom_func_nodes_fold)

lemma func_names_are_nodes: "dom (func_nodes body) \<subseteq> set (nodes (build_graph body))"
  unfolding dom_func_nodes build_graph_def
  using generic_visit_member[of _ _ "map tree body"] by auto

lemma mutually_reachable_refl: "mutually_reachable g u u"
  by (simp add: mutually_reachable_def)

lemma mutually_reachable_sym: "mutually_reachable g u v \<Longrightarrow> mutually_reachable g v u"
  by (auto simp: mutually_reachable_def)

lemma mutually_reachable_trans:
  "mutually_reachable g u v \<Longrightarrow> mutually_reachable g v w \<Longrightarrow> mutually_reachable g u w"
  unfolding mutually_reachable_def by (meson trancl_trans)

lemma component_of_self: "u \<in> set (nodes g) \<Longrightarrow> u \<in> component_of g u"
  by (simp add: component_of_def mutually_reachable_refl)

lemma component_of_eq:
  "v \<in> component_of g u \<Longrightarrow> component_of g v = component_of g u"
  unfolding component_of_def
  using mutually_reachable_sym mutually_reachable_trans by blast

lemma component_of_subset: "component_of g u \<subseteq> set (nodes g)"
  by (auto simp: component_of_def)

lemma scc_listing_union:
  assumes "is_scc_listing g cs"
  shows "set (concat cs) = set (nodes g)"
proof -
  have "set (concat cs) = \<Union> (set (map set cs))" by simp
  also have "\<dots> = \<Union> (component_of g ` set (nodes g))"
    using assms by (simp only: is_scc_listing_def)
  also have "\<dots> = set (nodes g)"
    using component_of_self component_of_subset by blast
  finally show ?thesis .
qed

lemma scc_listing_component:
  assumes "is_scc_listing g cs" "c \<in> set cs" "u \<in> set c"
  shows "set c = component_of g u"
proof -
  from assms(1,2) have "set c \<in> component_of g ` set (nodes g)"
    unfolding is_scc_listing_def by (metis image_eqI list.set_map)
  then obtain w where "set c = component_of g w" by blast
  with assms(3) show ?thesis using component_of_eq by blast
qed

lemma scc_listing_disjoint:
  assumes "is_scc_listing g cs" "i < j" "j < length cs"
  shows "set (cs ! i) \<inter> set (cs ! j) = {}"
proof (rule ccontr)
  assume "set (cs ! i) \<inter> set (cs ! j) \<noteq> {}"
  then obtain u where u: "u \<in> set (cs ! i)" "u \<in> set (cs ! j)" by blast
  from assms have mem: "cs ! i \<in> set cs" "cs ! j \<in> set cs" by simp_all
  have "set (cs ! i) = set (cs ! j)"
    using scc_listing_component[OF assms(1) mem(1) u(1)]
      scc_listing_component[OF assms(1) mem(2) u(2)] by simp
  moreover from assms have "distinct (map set cs)" by (simp add: is_scc_listing_def)
  ultimately show False
    using assms(2,3) by (auto simp: distinct_conv_nth)
qed

lemma build_graph_prog_print:
  "build_graph prog_print = \<lparr>nodes = [str ''f'', str ''print''], edges = [(str ''f'', str ''print'')]\<rparr>"
  by (simp add: build_graph_def prog_print_def empty_graph_def visit_Call_edge_def add_edge_def
      add_node_def str_def)

lemma scc_listing_prog_print:
  "is_scc_listing (build_graph prog_print) [[str ''print''], [str ''f'']]"
  unfolding build_graph_prog_print is_scc_listing_def component_of_def mutually_reachable_def
  by (auto simp: str_def trancl_insert)

lemma dom_func_nodes_prog_print: "dom (func_nodes prog_print) = {str ''f''}"
  by (simp add: func_nodes_def prog_print_def)

text \<open>
  Claim C2, as the code has it. The clusters are pairwise disjoint and every top-level
  function name is in exactly one of them, but their union is the node set of the call
  graph: it contains every top-level function name and, beside them, every callee name
  and every name of a nested function definition.
\<close>

theorem clusters_partition_graph_nodes:
  assumes "is_scc_listing (build_graph body) cs"
  shows "(\<forall>f \<in> dom (func_nodes body). \<exists>!i. i < length cs \<and> f \<in> set (cs ! i))
       \<and> (\<forall>i j. i < j \<and> j < length cs \<longrightarrow> set (cs ! i) \<inter> set (cs ! j) = {})
       \<and> set (concat cs) = set (nodes (build_graph body))
       \<and> dom (func_nodes body) \<subseteq> set (nodes (build_graph body))"
proof (intro conjI ballI allI impI)
  show un: "set (concat cs) = set (nodes (build_graph body))"
    using assms by (rule scc_listing_union)
  show sub: "dom (func_nodes body) \<subseteq> set (nodes (build_graph body))"
    by (rule func_names_are_nodes)
  show dj: "set (cs ! i) \<inter> set (cs ! j) = {}" if "i < j \<and> j < length cs" for i j
    using scc_listing_disjoint[OF assms] that by blast
  show "\<exists>!i. i < length cs \<and> f \<in> set (cs ! i)" if f: "f \<in> dom (func_nodes body)" for f
  proof -
    from f sub un have "f \<in> set (concat cs)" by blast
    then obtain c where "c \<in> set cs" "f \<in> set c" by auto
    then obtain i where i: "i < length cs" "f \<in> set (cs ! i)"
      by (auto simp: in_set_conv_nth)
    have "j = i" if j: "j < length cs" "f \<in> set (cs ! j)" for j
    proof (rule ccontr)
      assume "j \<noteq> i"
      then consider "i < j" | "j < i" by linarith
      then show False
      proof cases
        case 1
        with dj[of i j] i j show False by blast
      next
        case 2
        with dj[of j i] i j show False by blast
      qed
    qed
    with i show ?thesis by blast
  qed
qed

theorem clusters_partition_graph_nodes_witness:
  "set (concat [[str ''print''], [str ''f'']]) = set (nodes (build_graph prog_print))
   \<and> dom (func_nodes prog_print) \<subseteq> set (nodes (build_graph prog_print))
   \<and> set (nodes (build_graph prog_print)) = {str ''f'', str ''print''}"
  using clusters_partition_graph_nodes [OF scc_listing_prog_print]
  by (simp add: build_graph_prog_print)

text \<open>
  Claim C2 as stated fails on \<^verbatim>\<open>def f(): print()\<close>: the clusters are \<open>{print}\<close> and
  \<open>{f}\<close>, and their union is not the set of top-level function names \<open>{f}\<close>.
\<close>

theorem clusters_union_counterexample:
  "is_scc_listing (build_graph prog_print) [[str ''print''], [str ''f'']]
   \<and> set (concat [[str ''print''], [str ''f'']]) \<noteq> dom (func_nodes prog_print)"
  using scc_listing_prog_print by (auto simp: dom_func_nodes_prog_print str_def)

lemma visit_Call_edge_truthy:
  "truthy (current_function b) \<Longrightarrow>
     set (nodes (graph (visit_Call_edge (Name callee) b))) = 
       insert (the (current_function b)) (insert callee (set (nodes (graph b))))
     \<and> current_function (visit_Call_edge (Name callee) b) = current_function b"
  by (auto simp: visit_Call_edge_def truthy_def nodes_add_edge split: option.splits)

lemma current_visit_Call_edge:
  "current_function (visit_Call_edge func b) = current_function b"
  by (auto simp: visit_Call_edge_def split: option.splits node.splits)

lemma visit_truthy:
  "truthy (current_function b) \<Longrightarrow> [] \<notin> set (def_names n) \<Longrightarrow>
     truthy (current_function (visit n b)) \<and> set (simple_calls n) \<subseteq> set (nodes (graph (visit n b)))"
  "truthy (current_function b) \<Longrightarrow> [] \<notin> set (def_names_list ns) \<Longrightarrow>
     truthy (current_function (generic_visit ns b))
     \<and> set (simple_calls_list ns) \<subseteq> set (nodes (graph (generic_visit ns b)))"
proof (induction n b and ns b rule: visit_generic_visit.induct)
  case (1 name children b)
  then show ?case by (auto simp: truthy_def)
next
  case (2 func children b)
  let ?b = "visit_Call_edge func b"
  from 2 have t: "truthy (current_function ?b)" by (simp add: current_visit_Call_edge)
  from "2.prems" have d: "[] \<notin> set (def_names_list (func # children))" by simp
  note IH = "2.IH"[OF t d]
  have "set (case func of Name callee \<Rightarrow> [callee] | _ \<Rightarrow> []) \<subseteq> set (nodes (graph ?b))"
    using visit_Call_edge_truthy[OF "2.prems"(1)] by (cases func) auto
  also have "\<dots> \<subseteq> set (nodes (graph (generic_visit (func # children) ?b)))"
    by (rule nodes_visit_mono(2))
  finally show ?case using IH by simp
next
  case (3 i b)
  then show ?case by simp
next
  case (4 children b)
  then show ?case by simp
next
  case (5 b)
  then show ?case by simp
next
  case (6 child children b)
  from "6.prems" have d1: "[] \<notin> set (def_names child)" and d2: "[] \<notin> set (def_names_list children)"
    by simp_all
  note IH1 = "6.IH"(1)[OF "6.prems"(1) d1]
  note IH2 = "6.IH"(2)[OF conjunct1[OF IH1] d2]
  have "set (simple_calls child) \<subseteq> set (nodes (graph (generic_visit children (visit child b))))"
    using conjunct2[OF IH1] nodes_visit_mono(2)[of "visit child b" children] by blast
  with IH2 show ?case by simp
qed

lemma toplevel_call_is_node:
  assumes "Stmt (FunctionDef f children) seg \<in> set body"
    and "p \<in> set (simple_calls_list children)"
    and "[] \<notin> set (def_names_list (map tree body))"
  shows "p \<in> set (nodes (build_graph body))"
proof -
  from assms(1) obtain xs ys where body: "map tree body = xs @ FunctionDef f children # ys"
    by (metis (no_types, lifting) image_eqI in_set_conv_decomp list.set_map stmt.sel(1))
  have dn: "def_names_list (as @ bs) = def_names_list as @ def_names_list bs" for as bs
    by (induction as) simp_all
  from assms(3) have f: "f \<noteq> []" and c: "[] \<notin> set (def_names_list children)"
    unfolding body by (auto simp: dn)
  let ?b0 = "generic_visit xs \<lparr>graph = empty_graph, current_function = None\<rparr>"
  let ?b1 = "?b0\<lparr>current_function := Some f, graph := add_node (graph ?b0) f\<rparr>"
  have "truthy (current_function ?b1)" using f by (simp add: truthy_def)
  from visit_truthy(2)[OF this c] assms(2)
  have "p \<in> set (nodes (graph (visit (FunctionDef f children) ?b0)))" by auto
  then have "p \<in> set (nodes (graph (generic_visit ys (visit (FunctionDef f children) ?b0))))"
    using nodes_visit_mono(2) by blast
  then show ?thesis
    unfolding build_graph_def body generic_visit_append by simp
qed

lemma budget_value: "MAX_TOKENS * APPROX_CHARS_PER_TOKEN = 16000"
  by (simp add: MAX_TOKENS_def APPROX_CHARS_PER_TOKEN_def)

lemma chunk_code_Some:
  "parse source = Some body \<Longrightarrow>
   chunk_code parse scc source =
     Inr (final_chunks (with_fallback source (with_global body
            (concat (map (cluster_chunks (func_nodes body)) (scc (build_graph body)))))))"
  by (simp add: chunk_code_def)

lemma split_large_chunk_by_token_nonempty:
  assumes "chunk \<noteq> []"
  shows "split_large_chunk_by_token chunk max_tokens \<noteq> []"
proof -
  let ?gs = "token_groups (max_tokens * APPROX_CHARS_PER_TOKEN) (splitlines chunk) [] 0"
  from assms have "splitlines chunk \<noteq> []" by (simp only: splitlines_Nil_iff not_False_eq_True)
  then have "concat ?gs \<noteq> []" by (simp add: token_groups_concat)
  then have "?gs \<noteq> []" by auto
  then show ?thesis by (simp add: split_large_chunk_by_token_def token_loop_groups)
qed

lemma final_chunks_Cons:
  "final_chunks (c # cs) =
     (if int (length c) > MAX_TOKENS * APPROX_CHARS_PER_TOKEN
      then split_large_chunk_by_token c MAX_TOKENS else [c]) @ final_chunks cs"
  by (simp add: final_chunks_def)

lemma final_chunks_nonempty: "chunks \<noteq> [] \<Longrightarrow> final_chunks chunks \<noteq> []"
proof (cases chunks)
  case Nil
  then show "chunks \<noteq> [] \<Longrightarrow> final_chunks chunks \<noteq> []" by simp
next
  case (Cons c cs)
  show ?thesis
  proof (cases "int (length c) > MAX_TOKENS * APPROX_CHARS_PER_TOKEN")
    case True
    then have "c \<noteq> []" by (auto simp: budget_value)
    then show ?thesis
      using split_large_chunk_by_token_nonempty[of c MAX_TOKENS] True
      unfolding Cons final_chunks_Cons by simp
  next
    case False
    then show ?thesis unfolding Cons final_chunks_Cons by simp
  qed
qed

lemma final_chunks_keeps_small:
  "c \<in> set chunks \<Longrightarrow> int (length c) \<le> MAX_TOKENS * APPROX_CHARS_PER_TOKEN
   \<Longrightarrow> c \<in> set (final_chunks chunks)"
  by (auto simp: final_chunks_def intro!: bexI[of _ c])

lemma split_large_chunk_by_token_bound:
  assumes "c \<in> set (split_large_chunk_by_token chunk max_tokens)"
  shows "int (length c) < max_tokens * APPROX_CHARS_PER_TOKEN \<or> length (splitlines c) \<le> 1"
proof -
  let ?m = "max_tokens * APPROX_CHARS_PER_TOKEN"
  let ?gs = "token_groups ?m (splitlines chunk) [] 0"
  from assms obtain g where g: "g \<in> set ?gs" and c: "c = join NL g"
    by (auto simp: split_large_chunk_by_token_def token_loop_groups)
  have ne: "g \<noteq> []" using g token_groups_nonempty by metis
  have "length g = 1 \<or> cost g \<le> ?m"
    by (rule token_groups_bound[OF _ _ g]) (simp_all add: cost_def)
  then show ?thesis
  proof
    assume "length g = 1"
    then obtain l where l: "g = [l]" by (cases g) auto
    with g have "l \<in> set (concat ?gs)" by (auto intro!: bexI[of _ "[l]"])
    then have "l \<in> set (splitlines chunk)" by (simp add: token_groups_concat)
    then have nb: "\<forall>x\<in>set l. \<not> is_linebreak x" using splitlines_no_break by blast
    show ?thesis
    proof (cases "l = []")
      case True
      then show ?thesis using c l by simp
    next
      case False
      with nb have "splitlines l = [l]" by (rule splitlines_single)
      then show ?thesis using c l by simp
    qed
  next
    assume "cost g \<le> ?m"
    then show ?thesis using length_join_NL[OF ne] c by simp
  qed
qed

lemma final_chunks_bound:
  assumes "c \<in> set (final_chunks chunks)"
  shows "int (length c) \<le> MAX_TOKENS * APPROX_CHARS_PER_TOKEN \<or> length (splitlines c) \<le> 1"
proof -
  from assms obtain x where x: "x \<in> set chunks"
    and c: "c \<in> set (if int (length x) > MAX_TOKENS * APPROX_CHARS_PER_TOKEN
                     then split_large_chunk_by_token x MAX_TOKENS else [x])"
    by (auto simp: final_chunks_def)
  show ?thesis
  proof (cases "int (length x) > MAX_TOKENS * APPROX_CHARS_PER_TOKEN")
    case True
    with c have "c \<in> set (split_large_chunk_by_token x MAX_TOKENS)" by simp
    from split_large_chunk_by_token_bound[OF this] show ?thesis by auto
  next
    case False
    with c show ?thesis by simp
  qed
qed

text \<open>
  Claim C3. Every chunk that \<open>chunk_code\<close> returns and that has more than one line is at
  most \<open>MAX_TOKENS * APPROX_CHARS_PER_TOKEN = 16000\<close> characters long; a chunk longer
  than that consists of a single line.
\<close>

theorem final_chunks_size_bound:
  assumes "chunk_code parse scc source = Inr chunks" and "c \<in> set chunks"
  shows "(length (splitlines c) > 1 \<longrightarrow> int (length c) \<le> MAX_TOKENS * APPROX_CHARS_PER_TOKEN)
       \<and> (int (length c) > MAX_TOKENS * APPROX_CHARS_PER_TOKEN \<longrightarrow> length (splitlines c) = 1)
       \<and> MAX_TOKENS * APPROX_CHARS_PER_TOKEN = 16000"
proof -
  from assms(1) obtain body where "parse source = Some body"
    by (auto simp: chunk_code_def split: option.splits)
  then have "chunk_code parse scc source =
     Inr (final_chunks (with_fallback source (with_global body
            (concat (map (cluster_chunks (func_nodes body)) (scc (build_graph body)))))))"
    by (rule chunk_code_Some)
  with assms obtain xs where "c \<in> set (final_chunks xs)" by auto
  from final_chunks_bound[OF this]
  have b: "int (length c) \<le> MAX_TOKENS * APPROX_CHARS_PER_TOKEN \<or> length (splitlines c) \<le> 1" .
  have "length (splitlines c) = 1" if "int (length c) > MAX_TOKENS * APPROX_CHARS_PER_TOKEN"
  proof -
    from that have "c \<noteq> []" by (auto simp: budget_value)
    then have "splitlines c \<noteq> []" by (simp only: splitlines_Nil_iff not_False_eq_True)
    moreover from b that have "length (splitlines c) \<le> 1" by simp
    ultimately show ?thesis by (cases "splitlines c") auto
  qed
  with b show ?thesis by (auto simp: budget_value)
qed

lemma strip_all_space: "\<forall>c\<in>set s. is_space c \<Longrightarrow> strip s = []"
  by (auto simp: strip_def dest: set_dropWhileD)

lemma strip_Nil: "strip [] = []"
  by (simp add: strip_def)

lemma strip_core:
  assumes "s \<noteq> []" "\<not> is_space (hd s)" "\<not> is_space (last s)"
    and "\<forall>c\<in>set pre. is_space c" "\<forall>c\<in>set post. is_space c"
  shows "strip (pre @ s @ post) = s"
proof -
  from assms(1,2) have d1: "dropWhile is_space (pre @ s @ post) = s @ post"
    using assms(4) by (cases s) (simp_all add: dropWhile_append)
  from assms(1,3) have "dropWhile is_space (rev s) = rev s"
    by (cases s rule: rev_cases) simp_all
  with assms(1) have "dropWhile is_space (rev post @ rev s) = rev s"
    using assms(5) by (simp add: dropWhile_append)
  with d1 show ?thesis by (simp add: strip_def)
qed

lemma sublist_all_space:
  "sublist t s \<Longrightarrow> \<forall>c\<in>set s. is_space c \<Longrightarrow> \<forall>c\<in>set t. is_space c"
  by (auto simp: sublist_def)

lemma blank_source_no_statements:
  assumes "segments_within source body" "\<forall>c\<in>set source. is_space c"
  shows "body = []"
proof (cases body)
  case Nil
  then show ?thesis .
next
  case (Cons st sts)
  with assms(1) have "sublist (segment st) source" "segment st \<noteq> []"
    "\<not> is_space (hd (segment st))"
    by (simp_all add: segments_within_def)
  with assms(2) show ?thesis using sublist_all_space[of "segment st" source] by auto
qed

lemma scc_listing_empty: "is_scc_listing g cs \<Longrightarrow> nodes g = [] \<Longrightarrow> cs = []"
  by (simp add: is_scc_listing_def)

lemma build_graph_Nil: "build_graph [] = empty_graph"
  by (simp add: build_graph_def)

lemma scc_listing_singleton:
  assumes "is_scc_listing g cs" "p \<in> set (nodes g)" "component_of g p = {p}"
  shows "[p] \<in> set cs"
proof -
  from assms(1,2) have "component_of g p \<in> set (map set cs)"
    unfolding is_scc_listing_def by blast
  then obtain c where c: "c \<in> set cs" "set c = {p}" using assms(3) by auto
  from assms(1) c(1) have "distinct c" by (simp add: is_scc_listing_def)
  then have "length c = card (set c)" by (simp add: distinct_card)
  with c(2) have "length c = 1" by simp
  then obtain x where "c = [x]" by (cases c) auto
  with c(2) have "c = [p]" by simp
  with c(1) show ?thesis by simp
qed

lemma cluster_chunks_phantom: "fn p = None \<Longrightarrow> cluster_chunks fn [p] = [[]]"
  by (simp add: cluster_chunks_def full_code_def strip_Nil)

lemma with_global_mem: "c \<in> set chunks \<Longrightarrow> c \<in> set (with_global body chunks)"
  by (simp add: with_global_def)

lemma with_fallback_mem: "c \<in> set chunks \<Longrightarrow> c \<in> set (with_fallback source chunks)"
  by (auto simp: with_fallback_def)

lemma with_fallback_nonempty: "with_fallback source chunks \<noteq> []"
  by (simp add: with_fallback_def)

text \<open>
  Claim C10. When a top-level function contains a call of a simple name \<open>p\<close> that is not
  a top-level function and \<open>p\<close> is a strongly connected component of its own, the result
  of \<open>chunk_code\<close> contains an empty chunk. (Function names are identifiers, hence not
  empty.)
\<close>

theorem phantom_cluster_gives_empty_chunk:
  assumes "parse source = Some body"
    and "is_scc_listing (build_graph body) (scc (build_graph body))"
    and "Stmt (FunctionDef f children) seg \<in> set body"
    and "p \<in> set (simple_calls_list children)"
    and "[] \<notin> set (def_names_list (map tree body))"
    and "p \<notin> dom (func_nodes body)"
    and "component_of (build_graph body) p = {p}"
  shows "\<exists>chunks. chunk_code parse scc source = Inr chunks \<and> [] \<in> set chunks"
proof -
  let ?cs = "scc (build_graph body)"
  let ?chunks = "concat (map (cluster_chunks (func_nodes body)) ?cs)"
  have "p \<in> set (nodes (build_graph body))"
    using assms(3,4,5) by (rule toplevel_call_is_node)
  then have "[p] \<in> set ?cs" by (rule scc_listing_singleton[OF assms(2) _ assms(7)])
  moreover from assms(6) have "cluster_chunks (func_nodes body) [p] = [[]]"
    by (intro cluster_chunks_phantom) auto
  ultimately have "[] \<in> set ?chunks" by (auto intro!: bexI[of _ "[p]"])
  then have "[] \<in> set (with_fallback source (with_global body ?chunks))"
    by (intro with_fallback_mem with_global_mem)
  then have "[] \<in> set (final_chunks (with_fallback source (with_global body ?chunks)))"
    by (rule final_chunks_keeps_small) (simp add: budget_value)
  then show ?thesis
    by (simp add: chunk_code_Some[of parse source body scc, OF assms(1)])
qed

text \<open>
  Claim C7. For every input that parses, \<open>chunk_code\<close> returns at least one chunk; for
  an input of whitespace only it returns exactly one chunk, the empty string that
  trimming the input leaves.
\<close>

theorem chunk_code_at_least_one_chunk:
  assumes "parse source = Some body"
  shows "(\<exists>chunks. chunk_code parse scc source = Inr chunks \<and> chunks \<noteq> [])
       \<and> ((\<forall>c\<in>set source. is_space c) \<and> segments_within source body
            \<and> is_scc_listing (build_graph body) (scc (build_graph body))
          \<longrightarrow> chunk_code parse scc source = Inr [strip source] \<and> strip source = [])"
proof (rule conjI)
  show "\<exists>chunks. chunk_code parse scc source = Inr chunks \<and> chunks \<noteq> []"
    by (simp add: chunk_code_Some[of parse source body scc, OF assms] final_chunks_nonempty with_fallback_nonempty)
next
  show "(\<forall>c\<in>set source. is_space c) \<and> segments_within source body
            \<and> is_scc_listing (build_graph body) (scc (build_graph body))
          \<longrightarrow> chunk_code parse scc source = Inr [strip source] \<and> strip source = []"
  proof (rule impI)
  assume h: "(\<forall>c\<in>set source. is_space c) \<and> segments_within source body
            \<and> is_scc_listing (build_graph body) (scc (build_graph body))"
  then have body: "body = []" using blank_source_no_statements by blast
  with h have cs: "scc (build_graph body) = []"
    using scc_listing_empty[of "build_graph body" "scc (build_graph body)"]
    by (simp add: build_graph_Nil empty_graph_def)
  from h have s: "strip source = []" by (simp add: strip_all_space)
  have "global_code [] = []" by (simp add: global_code_def)
  then have "with_global [] [] = []" by (simp add: with_global_def strip_Nil)
  then show "chunk_code parse scc source = Inr [strip source] \<and> strip source = []"
    using s cs body
    by (simp add: chunk_code_Some[of parse source body scc, OF assms] with_fallback_def final_chunks_def budget_value)
  qed
qed

lemma splitlines_line_NL:
  "\<forall>c\<in>set l. \<not> is_linebreak c \<Longrightarrow> splitlines (l @ 10 # rest) = l # splitlines rest"
proof (induction l)
  case Nil
  have "is_linebreak 10" by (simp add: is_linebreak_def)
  then show ?case using splitlines_break[of 10 rest] by simp
next
  case (Cons c l)
  then have nb: "\<not> is_linebreak c" by simp
  from Cons have "splitlines (l @ 10 # rest) = l # splitlines rest" by simp
  then show ?case using splitlines_char[OF nb, of "l @ 10 # rest"] by simp
qed

lemma splitlines_join_NL:
  "\<forall>l\<in>set ls. \<forall>c\<in>set l. \<not> is_linebreak c \<Longrightarrow> ls \<noteq> [] \<Longrightarrow> last ls \<noteq> []
   \<Longrightarrow> splitlines (join NL ls) = ls"
proof (induction NL ls rule: join.induct)
  case 1
  then show ?case by simp
next
  case (2 x)
  then show ?case using splitlines_single[of x] by simp
next
  case (3 x y ys)
  then have "splitlines (join NL (y # ys)) = y # ys" by simp
  then show ?case using splitlines_line_NL[of x "join NL (y # ys)"] 3(2) by simp
qed

lemma long_line_facts:
  "long_line \<noteq> []" "hd long_line = 97" "last long_line = 97" "length long_line = 16001"
  "\<forall>c\<in>set long_line. \<not> is_linebreak c"
  by (simp_all add: long_line_def is_linebreak_def)

lemma chunk_code_prog_long:
  "chunk_code (\<lambda>s. Some prog_long) (\<lambda>g. []) long_line = Inr [long_line]"
proof -
  have g: "global_code prog_long = [] @ long_line @ [10, 10]"
    by (simp add: global_code_def prog_long_def is_FunctionDef_def)
  have s: "strip (global_code prog_long) = long_line"
    unfolding g by (rule strip_core) (simp_all add: long_line_facts is_space_def)
  have sl: "splitlines long_line = [long_line]"
    by (rule splitlines_single) (simp_all add: long_line_facts)
  have "split_large_chunk_by_token long_line MAX_TOKENS = [long_line]"
    by (simp add: split_large_chunk_by_token_def sl long_line_facts)
  then show ?thesis
    by (simp add: chunk_code_def s with_global_def with_fallback_def final_chunks_def
        long_line_facts budget_value)
qed

theorem final_chunks_size_bound_witness:
  "chunk_code (\<lambda>s. Some prog_long) (\<lambda>g. []) long_line = Inr [long_line]
   \<and> int (length long_line) = 16001 \<and> length (splitlines long_line) = 1"
  using final_chunks_size_bound [OF chunk_code_prog_long, of long_line]
  by (simp add: chunk_code_prog_long long_line_facts budget_value)

lemma component_print:
  "component_of (build_graph prog_print) (str ''print'') = {str ''print''}"
  unfolding build_graph_prog_print component_of_def mutually_reachable_def
  by (auto simp: str_def trancl_insert)

theorem phantom_cluster_gives_empty_chunk_witness:
  "\<exists>chunks. chunk_code (\<lambda>s. Some prog_print) (\<lambda>g. [[str ''print''], [str ''f'']])
              (str ''def f(): print()'') = Inr chunks \<and> [] \<in> set chunks"
proof (rule phantom_cluster_gives_empty_chunk)
  show "(\<lambda>s. Some prog_print) (str ''def f(): print()'') = Some prog_print" by simp
  show "is_scc_listing (build_graph prog_print) [[str ''print''], [str ''f'']]"
    by (rule scc_listing_prog_print)
  show "Stmt (FunctionDef (str ''f'') [Other [], Other [Call (Name (str ''print'')) []]])
          (str ''def f(): print()'') \<in> set prog_print"
    by (simp add: prog_print_def)
  show "str ''print'' \<in> set (simple_calls_list [Other [], Other [Call (Name (str ''print'')) []]])"
    by simp
  show "[] \<notin> set (def_names_list (map tree prog_print))"
    by (simp add: prog_print_def str_def)
  show "str ''print'' \<notin> dom (func_nodes prog_print)"
    by (simp add: dom_func_nodes_prog_print str_def)
  show "component_of (build_graph prog_print) (str ''print'') = {str ''print''}"
    by (rule component_print)
qed

lemma chunk_code_prog_print:
  "chunk_code (\<lambda>s. Some prog_print) (\<lambda>g. [[str ''print''], [str ''f'']]) (str ''def f(): print()'')
     = Inr [[], str ''def f(): print()'']"
  by (simp add: chunk_code_def prog_print_def final_chunks_def with_fallback_def with_global_def
      global_code_def cluster_chunks_def full_code_def func_nodes_def is_FunctionDef_def str_def
      strip_def is_space_def is_linebreak_def MAX_TOKENS_def APPROX_CHARS_PER_TOKEN_def)

theorem chunk_code_at_least_one_chunk_witness:
  "chunk_code (\<lambda>s. Some []) (\<lambda>g. []) (str '' \<newline>'') = Inr [[]]"
  using chunk_code_at_least_one_chunk [of "\<lambda>s. Some []" "str '' \<newline>''" "[]" "\<lambda>g. []"]
  by (simp add: segments_within_def is_scc_listing_def build_graph_Nil empty_graph_def
      str_def is_space_def)

section \<open>The attribution of calls and the flush points\<close>

lemma visit_no_current:
  "current_function b = None \<Longrightarrow> def_names n = [] \<Longrightarrow> visit n b = b"
  "current_function b = None \<Longrightarrow> def_names_list ns = [] \<Longrightarrow> generic_visit ns b = b"
proof (induction n b and ns b rule: visit_generic_visit.induct)
  case (2 func children b)
  from "2.prems"(1) have e: "visit_Call_edge func b = b"
    by (simp add: visit_Call_edge_def split: node.splits)
  from "2.prems"(2) have d: "def_names_list (func # children) = []" by simp
  from "2.IH"[unfolded e, OF "2.prems"(1) d] show ?case by (simp add: e)
next
  case (6 child children b)
  from "6.prems"(2) have d1: "def_names child = []" and d2: "def_names_list children = []"
    by simp_all
  from "6.IH"(1)[OF "6.prems"(1) d1] have v: "visit child b = b" .
  from "6.IH"(2)[unfolded v, OF "6.prems"(1) d2] show ?case by (simp add: v)
qed simp_all

lemma edges_visit_Call_edge:
  "current_function b = Some cur \<Longrightarrow> cur \<noteq> [] \<Longrightarrow>
   set (edges (graph (visit_Call_edge func b)))
     = set (edges (graph b)) \<union> Pair cur ` set (case func of Name callee \<Rightarrow> [callee] | _ \<Rightarrow> [])"
  by (cases func) (simp_all add: visit_Call_edge_def edges_add_edge)

lemma visit_def_free:
  "current_function b = Some cur \<Longrightarrow> cur \<noteq> [] \<Longrightarrow> def_names n = [] \<Longrightarrow>
     current_function (visit n b) = Some cur
     \<and> set (edges (graph (visit n b))) = set (edges (graph b)) \<union> Pair cur ` set (simple_calls n)"
  "current_function b = Some cur \<Longrightarrow> cur \<noteq> [] \<Longrightarrow> def_names_list ns = [] \<Longrightarrow>
     current_function (generic_visit ns b) = Some cur
     \<and> set (edges (graph (generic_visit ns b)))
         = set (edges (graph b)) \<union> Pair cur ` set (simple_calls_list ns)"
proof (induction n b and ns b rule: visit_generic_visit.induct)
  case (1 name children b)
  then show ?case by simp
next
  case (2 func children b)
  let ?b = "visit_Call_edge func b"
  have c: "current_function ?b = Some cur" using "2.prems"(1) by (simp add: current_visit_Call_edge)
  from "2.prems"(3) have d: "def_names_list (func # children) = []" by simp
  note IH = "2.IH"[OF c "2.prems"(2) d]
  show ?case
    using IH edges_visit_Call_edge[OF "2.prems"(1,2), of func] by (simp add: image_Un Un_assoc)
next
  case (3 i b)
  then show ?case by simp
next
  case (4 children b)
  then show ?case by simp
next
  case (5 b)
  then show ?case by simp
next
  case (6 child children b)
  from "6.prems"(3) have d1: "def_names child = []" and d2: "def_names_list children = []"
    by simp_all
  note IH1 = "6.IH"(1)[OF "6.prems"(1,2) d1]
  note IH2 = "6.IH"(2)[OF conjunct1[OF IH1] "6.prems"(2) d2]
  show ?case using IH1 IH2 by (simp add: image_Un Un_assoc)
qed

text \<open>
  Claim C1, as the code has it. Inside a function definition that contains no further
  definition, every call of a simple name is attributed to that definition's own name,
  whether the definition is nested or not: a call inside a nested function is attributed
  to the nested function. Statements at module level that precede every function
  definition produce no edge.
\<close>

theorem calls_attributed_to_innermost_def:
  assumes "def_names_list children = []" and "name \<noteq> []"
    and "def_names_list (map tree pre) = []"
  shows "set (edges (graph (visit (FunctionDef name children) b)))
           = set (edges (graph b)) \<union> Pair name ` set (simple_calls_list children)
       \<and> build_graph (pre @ rest) = build_graph rest"
proof
  let ?b = "b\<lparr>current_function := Some name, graph := add_node (graph b) name\<rparr>"
  have "current_function ?b = Some name" by simp
  from visit_def_free(2)[OF this assms(2,1)]
  show "set (edges (graph (visit (FunctionDef name children) b)))
           = set (edges (graph b)) \<union> Pair name ` set (simple_calls_list children)"
    by (simp add: edges_add_node)
next
  let ?init = "\<lparr>graph = empty_graph, current_function = None\<rparr>"
  have "generic_visit (map tree pre) ?init = ?init"
    by (rule visit_no_current(2)) (simp_all add: assms(3))
  then show "build_graph (pre @ rest) = build_graph rest"
    by (simp add: build_graph_def generic_visit_append)
qed

theorem calls_attributed_to_innermost_def_witness:
  "set (edges (graph (visit (FunctionDef (str ''inner'') [Other [], Other [Call (Name (str ''g'')) []]])
                        \<lparr>graph = \<lparr>nodes = [str ''outer''], edges = []\<rparr>,
                         current_function = Some (str ''outer'')\<rparr>)))
     = {(str ''inner'', str ''g'')}
   \<and> build_graph ([Stmt (Other [Call (Name (str ''h'')) []]) (str ''h()'')] @ prog_nested)
     = build_graph prog_nested"
  using calls_attributed_to_innermost_def
    [of "[Other [], Other [Call (Name (str ''g'')) []]]" "str ''inner''"
        "[Stmt (Other [Call (Name (str ''h'')) []]) (str ''h()'')]"
        "\<lparr>graph = \<lparr>nodes = [str ''outer''], edges = []\<rparr>, current_function = Some (str ''outer'')\<rparr>"
        prog_nested]
  by (simp add: str_def)

text \<open>
  Claim C1 as stated fails on a nested definition: the call of \<open>g\<close> inside \<open>inner\<close> is
  recorded as the edge \<open>(inner, g)\<close>, not as \<open>(outer, g)\<close>.
\<close>

theorem nested_call_attribution_counterexample:
  "edges (build_graph prog_nested) = [(str ''inner'', str ''g'')]
   \<and> claimed_edges prog_nested = [(str ''outer'', str ''g'')]
   \<and> edges (build_graph prog_nested) \<noteq> claimed_edges prog_nested"
  by (simp add: build_graph_def prog_nested_def empty_graph_def visit_Call_edge_def add_edge_def
      add_node_def claimed_edges_def str_def)

text \<open>
  \<open>current_function\<close> keeps its value when \<open>visit_FunctionDef\<close> returns, so a call at
  module level after a function definition is attributed to that function.
\<close>

lemma module_level_call_after_def:
  "edges (build_graph prog_late_call) = [(str ''f'', str ''h'')]"
  by (simp add: build_graph_def prog_late_call_def empty_graph_def visit_Call_edge_def add_edge_def
      add_node_def str_def)

lemma function_groups_flush_points:
  assumes "\<forall>i < length buf. \<not> flushes n buf i"
  shows "(\<forall>g \<in> set (butlast (function_groups n lines buf)). flushes n g (length g - 1))
       \<and> (\<forall>g \<in> set (function_groups n lines buf). \<forall>i. i + 1 < length g \<longrightarrow> \<not> flushes n g i)"
  using assms
proof (induction lines arbitrary: buf)
  case Nil
  then show ?case by simp
next
  case (Cons line lines)
  let ?buf = "buf @ [line]"
  show ?case
  proof (cases "is_boundary line \<and> int (length ?buf) \<ge> n")
    case True
    have IH: "(\<forall>g \<in> set (butlast (function_groups n lines [])). flushes n g (length g - 1))
       \<and> (\<forall>g \<in> set (function_groups n lines []). \<forall>i. i + 1 < length g \<longrightarrow> \<not> flushes n g i)"
      by (rule Cons.IH) simp
    have eq: "function_groups n (line # lines) buf = ?buf # function_groups n lines []"
      using True by simp
    have f: "flushes n ?buf (length ?buf - 1)"
      using True by (simp add: flushes_def)
    have nf: "\<not> flushes n ?buf i" if "i + 1 < length ?buf" for i
      using that Cons.prems by (simp add: flushes_def nth_append)
    have bl: "g = ?buf \<or> g \<in> set (butlast (function_groups n lines []))"
      if "g \<in> set (butlast (?buf # function_groups n lines []))" for g
      using that by (cases "function_groups n lines [] = []") auto
    have "\<forall>g \<in> set (butlast (?buf # function_groups n lines [])). flushes n g (length g - 1)"
      using bl IH f by blast
    moreover have "\<forall>g \<in> set (?buf # function_groups n lines []). \<forall>i. i + 1 < length g \<longrightarrow> \<not> flushes n g i"
      using IH nf by auto
    ultimately show ?thesis unfolding eq by blast
  next
    case False
    have eq: "function_groups n (line # lines) buf = function_groups n lines ?buf"
      using False by auto
    have "\<forall>i < length ?buf. \<not> flushes n ?buf i"
    proof (intro allI impI)
      fix i assume "i < length ?buf"
      then consider "i < length buf" | "i = length buf" by fastforce
      then show "\<not> flushes n ?buf i"
      proof cases
        case 1
        with Cons.prems show ?thesis by (simp add: flushes_def nth_append)
      next
        case 2
        with False show ?thesis by (simp add: flushes_def)
      qed
    qed
    from Cons.IH[OF this] show ?thesis unfolding eq .
  qed
qed

lemma function_groups_flush_partition:
  "flush_partition n lines (function_groups n lines [])"
  unfolding flush_partition_def
  using function_groups_flush_points[of "[]" n lines]
  by (simp add: function_groups_concat function_groups_nonempty)

lemma function_groups_first_flush:
  assumes "is_boundary l" "int (length buf + length xs + 1) \<ge> n"
    and "\<forall>i < length xs. \<not> (is_boundary (xs ! i) \<and> int (length buf + i + 1) \<ge> n)"
  shows "function_groups n (xs @ l # ys) buf = (buf @ xs @ [l]) # function_groups n ys []"
  using assms
proof (induction xs arbitrary: buf)
  case Nil
  then show ?case by simp
next
  case (Cons x xs)
  from Cons.prems(3) have x: "\<not> (is_boundary x \<and> int (length buf + 1) \<ge> n)" by auto
  have "function_groups n (xs @ l # ys) (buf @ [x]) = ((buf @ [x]) @ xs @ [l]) # function_groups n ys []"
  proof (rule Cons.IH[OF Cons.prems(1)])
    show "n \<le> int (length (buf @ [x]) + length xs + 1)" using Cons.prems(2) by simp
    show "\<forall>i<length xs. \<not> (is_boundary (xs ! i) \<and> n \<le> int (length (buf @ [x]) + i + 1))"
      using Cons.prems(3) by auto
  qed
  with x show ?case by auto
qed

lemma function_groups_no_boundary:
  "\<forall>l \<in> set ys. \<not> is_boundary l \<Longrightarrow> buf @ ys \<noteq> [] \<Longrightarrow> function_groups n ys buf = [buf @ ys]"
  by (induction ys arbitrary: buf) auto

lemma first_flush_scenario:
  assumes "length lines = 120" "is_boundary (lines ! 54)"
  shows "\<exists>k gs. 50 \<le> k \<and> k \<le> 55 \<and> is_boundary (lines ! (k - 1))
           \<and> function_groups 50 lines [] = take k lines # gs
           \<and> gs \<noteq> [] \<and> [] \<notin> set gs \<and> concat gs = drop k lines"
proof -
  define P where "P k \<longleftrightarrow> 50 \<le> k \<and> is_boundary (lines ! (k - 1))" for k :: nat
  define k where "k = (LEAST k. P k)"
  have P55: "P 55" using assms(2) by (simp add: P_def)
  then have Pk: "P k" unfolding k_def by (rule LeastI)
  have k55: "k \<le> 55" unfolding k_def using P55 by (rule Least_le)
  have least: "\<not> P j" if "j < k" for j using that unfolding k_def by (rule not_less_Least)
  from Pk have k50: "50 \<le> k" and bk: "is_boundary (lines ! (k - 1))" by (simp_all add: P_def)
  let ?xs = "take (k - 1) lines" and ?l = "lines ! (k - 1)" and ?ys = "drop k lines"
  have lt: "k - 1 < length lines" using assms(1) k55 by simp
  have split: "lines = ?xs @ ?l # ?ys"
    using id_take_nth_drop[OF lt] k50 by simp
  have tk: "take k lines = ?xs @ [?l]"
    using take_Suc_conv_app_nth[OF lt] k50 by simp
  have nf: "\<forall>i < length ?xs. \<not> (is_boundary (?xs ! i) \<and> int (length ([]::pystr list) + i + 1) \<ge> 50)"
  proof (intro allI impI notI)
    fix i assume i: "i < length ?xs" and c: "is_boundary (?xs ! i) \<and> int (length ([]::pystr list) + i + 1) \<ge> 50"
    from i have ik: "i + 1 < k" by auto
    from c i have "P (i + 1)" by (simp add: P_def)
    with least[OF ik] show False by simp
  qed
  have "function_groups 50 (?xs @ ?l # ?ys) [] = ([] @ ?xs @ [?l]) # function_groups 50 ?ys []"
    by (rule function_groups_first_flush[OF bk _ nf]) (use k50 lt in simp)
  then have fg: "function_groups 50 lines [] = take k lines # function_groups 50 ?ys []"
    using split tk by simp
  have c: "concat (function_groups 50 ?ys []) = ?ys" by (simp add: function_groups_concat)
  have "?ys \<noteq> []" using assms(1) k55 by simp
  with c have ne: "function_groups 50 ?ys [] \<noteq> []" by auto
  show ?thesis
    using k50 k55 bk fg ne c function_groups_nonempty[of 50 ?ys "[]"] by blast
qed

text \<open>
  Claim C4, as the code has it. Within the budget the text is returned unchanged as one
  chunk. Otherwise the chunks are the joins of the groups of a flush partition of the
  lines, where a line is a boundary when, stripped on both sides, it starts with one of
  \<^verbatim>\<open>'if '\<close>, \<^verbatim>\<open>'for '\<close>, \<^verbatim>\<open>'while '\<close>, \<^verbatim>\<open>'try'\<close>, \<^verbatim>\<open>'except'\<close>, \<^verbatim>\<open>'def '\<close>.
  For 120 lines with a boundary at line 55 and the budget 50, the first chunk holds the
  first \<open>k\<close> lines, \<open>50 \<le> k \<le> 55\<close>, and ends in a boundary line; the chunks after it
  hold the remaining lines.
\<close>

theorem split_large_function_structure:
  "(int (length (splitlines code)) \<le> max_lines \<longrightarrow> split_large_function code max_lines = [code])
   \<and> (int (length (splitlines code)) > max_lines \<longrightarrow>
        (\<exists>gs. split_large_function code max_lines = map (join NL) gs
              \<and> flush_partition max_lines (splitlines code) gs))
   \<and> (length (splitlines code) = 120 \<and> is_boundary (splitlines code ! 54) \<longrightarrow>
        (\<exists>k gs. 50 \<le> k \<and> k \<le> 55 \<and> is_boundary (splitlines code ! (k - 1))
              \<and> split_large_function code 50 = join NL (take k (splitlines code)) # map (join NL) gs
              \<and> gs \<noteq> [] \<and> [] \<notin> set gs \<and> concat gs = drop k (splitlines code)))"
proof (intro conjI impI)
  assume "int (length (splitlines code)) \<le> max_lines"
  then show "split_large_function code max_lines = [code]"
    by (simp add: split_large_function_def)
next
  assume "int (length (splitlines code)) > max_lines"
  then have "split_large_function code max_lines
               = map (join NL) (function_groups max_lines (splitlines code) [])"
    by (simp add: split_large_function_def function_loop_groups)
  then show "\<exists>gs. split_large_function code max_lines = map (join NL) gs
                \<and> flush_partition max_lines (splitlines code) gs"
    using function_groups_flush_partition by blast
next
  assume a: "length (splitlines code) = 120 \<and> is_boundary (splitlines code ! 54)"
  then have "split_large_function code 50 = map (join NL) (function_groups 50 (splitlines code) [])"
    by (simp add: split_large_function_def function_loop_groups)
  moreover from a obtain k gs where "50 \<le> k" "k \<le> 55" "is_boundary (splitlines code ! (k - 1))"
    "function_groups 50 (splitlines code) [] = take k (splitlines code) # gs"
    "gs \<noteq> []" "[] \<notin> set gs" "concat gs = drop k (splitlines code)"
    using first_flush_scenario[of "splitlines code"] by blast
  ultimately show "\<exists>k gs. 50 \<le> k \<and> k \<le> 55 \<and> is_boundary (splitlines code ! (k - 1))
              \<and> split_large_function code 50 = join NL (take k (splitlines code)) # map (join NL) gs
              \<and> gs \<noteq> [] \<and> [] \<notin> set gs \<and> concat gs = drop k (splitlines code)"
    by auto
qed

lemma lines120_facts:
  "length lines120 = 120" "lines120 ! 54 = str ''    if x:''" "lines120 \<noteq> []"
  "last lines120 \<noteq> []"
  by (simp_all add: lines120_def nth_append str_def)

lemma lines120_no_break: "\<forall>l\<in>set lines120. \<forall>c\<in>set l. \<not> is_linebreak c"
  by (simp add: lines120_def str_def is_linebreak_def)

lemma splitlines_code120: "splitlines code120 = lines120"
  unfolding code120_def
  using lines120_no_break lines120_facts(3,4) by (rule splitlines_join_NL)

lemma is_boundary_if_line: "is_boundary (str ''    if x:'')"
  by (simp add: is_boundary_def startswith_def KEYWORDS_def str_def strip_def is_space_def)

theorem split_large_function_structure_witness:
  "split_large_function (str ''a\<newline>b'') 50 = [str ''a\<newline>b'']
   \<and> (\<exists>gs. split_large_function code120 50 = map (join NL) gs \<and> flush_partition 50 lines120 gs)
   \<and> (\<exists>k gs. 50 \<le> k \<and> k \<le> 55 \<and> is_boundary (lines120 ! (k - 1))
          \<and> split_large_function code120 50 = join NL (take k lines120) # map (join NL) gs
          \<and> gs \<noteq> [] \<and> [] \<notin> set gs \<and> concat gs = drop k lines120)"
proof (intro conjI)
  have "int (length (splitlines (str ''a\<newline>b''))) \<le> 50"
    by (simp add: str_def is_linebreak_def)
  with split_large_function_structure [of "str ''a\<newline>b''" 50]
  show "split_large_function (str ''a\<newline>b'') 50 = [str ''a\<newline>b'']" by blast
next
  have "int (length (splitlines code120)) > 50"
    by (simp add: splitlines_code120 lines120_facts)
  with split_large_function_structure [of code120 50]
  show "\<exists>gs. split_large_function code120 50 = map (join NL) gs \<and> flush_partition 50 lines120 gs"
    by (simp add: splitlines_code120)
next
  have "length (splitlines code120) = 120 \<and> is_boundary (splitlines code120 ! 54)"
    by (simp add: splitlines_code120 lines120_facts is_boundary_if_line)
  with split_large_function_structure [of code120 50]
  show "\<exists>k gs. 50 \<le> k \<and> k \<le> 55 \<and> is_boundary (lines120 ! (k - 1))
          \<and> split_large_function code120 50 = join NL (take k lines120) # map (join NL) gs
          \<and> gs \<noteq> [] \<and> [] \<notin> set gs \<and> concat gs = drop k lines120"
    by (simp add: splitlines_code120)
qed

text \<open>
  Claim C4 as stated fails on a line that starts with a keyword not followed by a space:
  with the budget 2, the line \<^verbatim>\<open>if(b):\<close> flushes in the specification's wording and does
  not flush in the code.
\<close>

theorem keyword_prefix_counterexample:
  "split_large_function (str ''a\<newline>if(b):\<newline>c'') 2 = [str ''a\<newline>if(b):\<newline>c'']
   \<and> claimed_split_large_function (str ''a\<newline>if(b):\<newline>c'') 2
       = [str ''a\<newline>if(b):'', str ''c'']"
  by (simp add: split_large_function_def claimed_split_large_function_def str_def is_linebreak_def
      is_boundary_def claimed_boundary_def strip_def is_space_def startswith_def KEYWORDS_def
      CLAIMED_KEYWORDS_def)

section \<open>The merge threshold and small sources\<close>

lemma linebreak_is_space: "is_linebreak c \<Longrightarrow> is_space c"
  by (auto simp: is_linebreak_def is_space_def)

lemma splitlines_unterminated_NL:
  "s \<noteq> [] \<Longrightarrow> \<not> is_linebreak (last s) \<Longrightarrow> splitlines (s @ 10 # r) = splitlines s @ splitlines r"
proof (induction s rule: length_induct)
  case (1 s)
  from "1.prems"(1) obtain c s' where s: "s = c # s'" by (cases s) auto
  show ?case
  proof (cases "s' = []")
    case True
    with s "1.prems"(2) have nb: "\<forall>x\<in>set [c]. \<not> is_linebreak x" by simp
    have "splitlines ([c] @ 10 # r) = [c] # splitlines r"
      using nb by (rule splitlines_line_NL)
    moreover have "splitlines [c] = [[c]]"
      using nb by (intro splitlines_single) simp_all
    ultimately show ?thesis using s True by simp
  next
    case False
    with s "1.prems"(2) have l: "\<not> is_linebreak (last s')" by simp
    from 1 s False l have IH: "splitlines (s' @ 10 # r) = splitlines s' @ splitlines r"
      by simp
    show ?thesis
    proof (cases "is_linebreak c")
      case brk: True
      show ?thesis
      proof (cases "c = 13 \<and> (\<exists>ds. s' = 10 # ds)")
        case True
        then obtain ds where ds: "s' = 10 # ds" and c: "c = 13" by blast
        from ds l have "ds \<noteq> []" by (auto simp: is_linebreak_def)
        moreover from this ds l have "\<not> is_linebreak (last ds)" by simp
        moreover have "length ds < length s" using s ds by simp
        ultimately have "splitlines (ds @ 10 # r) = splitlines ds @ splitlines r"
          using "1.IH" by blast
        then show ?thesis unfolding s ds c by (simp add: splitlines_crlf del: splitlines.simps)
      next
        case nocrlf: False
        then have 1: "\<not> (c = 13 \<and> (\<exists>ds. s' @ 10 # r = 10 # ds))"
          using False by (cases s') auto
        show ?thesis
          unfolding s using splitlines_break[OF brk 1] splitlines_break[OF brk nocrlf] IH
          by simp
      qed
    next
      case nb: False
      from False have "splitlines s' \<noteq> []" by (simp only: splitlines_Nil_iff not_False_eq_True)
      then obtain x xs where sl: "splitlines s' = x # xs" by (cases "splitlines s'") auto
      show ?thesis
        unfolding s using splitlines_char[OF nb, of "s' @ 10 # r"] splitlines_char[OF nb, of s'] IH sl
        by simp
    qed
  qed
qed

lemma func_nodes_fold_mem:
  "fold (\<lambda>st m. case tree st of FunctionDef name _ \<Rightarrow> m(name \<mapsto> st) | _ \<Rightarrow> m) body m0 name = Some st
   \<Longrightarrow> st \<in> set body \<or> m0 name = Some st"
proof (induction body arbitrary: m0)
  case Nil
  then show ?case by simp
next
  case (Cons a body)
  from Cons.IH[OF Cons.prems[simplified]] show ?case
    by (cases "tree a") (auto split: if_splits)
qed

lemma func_nodes_mem: "func_nodes body name = Some st \<Longrightarrow> st \<in> set body"
  using func_nodes_fold_mem[of body Map.empty name st] by (simp add: func_nodes_def)

lemma segments_within_token_ended:
  "segments_within source body \<Longrightarrow> func_nodes body name = Some st \<Longrightarrow> token_ended st"
  using func_nodes_mem[of body name st] by (auto simp: segments_within_def token_ended_def)

lemma full_code_shape:
  assumes "\<And>name st. fn name = Some st \<Longrightarrow> token_ended st"
  shows "full_code fn cluster = [] \<or>
         (\<exists>t. full_code fn cluster = t @ [10, 10] \<and> t \<noteq> [] \<and> \<not> is_space (hd t) \<and> \<not> is_space (last t))"
proof (induction cluster)
  case Nil
  then show ?case by (simp add: full_code_def)
next
  case (Cons name cluster)
  show ?case
  proof (cases "fn name")
    case None
    then have "full_code fn (name # cluster) = full_code fn cluster" by (simp add: full_code_def)
    with Cons show ?thesis by simp
  next
    case (Some st)
    then have fc: "full_code fn (name # cluster) = segment st @ [10, 10] @ full_code fn cluster"
      by (simp add: full_code_def)
    from assms[OF Some] have te: "segment st \<noteq> []" "\<not> is_space (hd (segment st))"
      "\<not> is_space (last (segment st))" by (simp_all add: token_ended_def)
    from Cons show ?thesis
    proof
      assume "full_code fn cluster = []"
      with fc te show ?thesis by auto
    next
      assume "\<exists>t. full_code fn cluster = t @ [10, 10] \<and> t \<noteq> [] \<and> \<not> is_space (hd t) \<and> \<not> is_space (last t)"
      then obtain t where t: "full_code fn cluster = t @ [10, 10]" "t \<noteq> []" "\<not> is_space (last t)"
        by blast
      let ?t = "segment st @ [10, 10] @ t"
      have "full_code fn (name # cluster) = ?t @ [10, 10]" using fc t(1) by simp
      moreover have "?t \<noteq> []" "\<not> is_space (hd ?t)" "\<not> is_space (last ?t)"
        using te t by simp_all
      ultimately show ?thesis by blast
    qed
  qed
qed

lemma full_code_line_count:
  assumes "\<And>name st. fn name = Some st \<Longrightarrow> token_ended st"
  shows "length (splitlines (full_code fn cluster)) > 100
         \<longleftrightarrow> length (splitlines (strip (full_code fn cluster))) \<ge> 100"
proof -
  from full_code_shape[of fn cluster, OF assms] show ?thesis
  proof
    assume "full_code fn cluster = []"
    then show ?thesis by (simp add: strip_Nil)
  next
    assume "\<exists>t. full_code fn cluster = t @ [10, 10] \<and> t \<noteq> [] \<and> \<not> is_space (hd t) \<and> \<not> is_space (last t)"
    then obtain t where t: "full_code fn cluster = t @ [10, 10]" "t \<noteq> []" "\<not> is_space (hd t)"
      "\<not> is_space (last t)" by blast
    have "strip ([] @ t @ [10, 10]) = t"
      using t(2-4) by (rule strip_core) (simp_all add: is_space_def)
    then have s: "strip (full_code fn cluster) = t" using t(1) by simp
    from t(4) have "\<not> is_linebreak (last t)" using linebreak_is_space by blast
    from splitlines_unterminated_NL[OF t(2) this, of "[10]"]
    have "splitlines (t @ [10, 10]) = splitlines t @ [[]]"
      using splitlines_break[of 10 "[]"] by (simp add: is_linebreak_def)
    then show ?thesis using s t(1) by auto
  qed
qed

text \<open>
  Claim C5, as the code has it. The line count that is compared with 100 is that of
  \<open>full_code\<close> before trimming, which ends in a blank line; so a cluster is split
  function by function exactly when its merged, trimmed text has 100 lines or more, and
  it gives exactly one merged, trimmed chunk when that text has fewer than 100 lines.
  The chunks of all clusters, in order, are the chunk list that \<open>chunk_code\<close> goes on
  with.
\<close>

theorem cluster_merge_threshold:
  assumes "segments_within source body"
  shows "(length (splitlines (strip (full_code (func_nodes body) cluster))) \<ge> 100 \<longrightarrow>
            cluster_chunks (func_nodes body) cluster
              = concat (map (\<lambda>func_name. case func_nodes body func_name of
                                             Some st \<Rightarrow> split_large_function (segment st) 50
                                           | None \<Rightarrow> []) cluster))
       \<and> (length (splitlines (strip (full_code (func_nodes body) cluster))) < 100 \<longrightarrow>
            cluster_chunks (func_nodes body) cluster = [strip (full_code (func_nodes body) cluster)])
       \<and> (parse source = Some body \<longrightarrow>
            chunk_code parse scc source =
              Inr (final_chunks (with_fallback source (with_global body
                    (concat (map (cluster_chunks (func_nodes body)) (scc (build_graph body))))))))"
proof -
  have lc: "length (splitlines (full_code (func_nodes body) cluster)) > 100
         \<longleftrightarrow> length (splitlines (strip (full_code (func_nodes body) cluster))) \<ge> 100"
    by (rule full_code_line_count) (rule segments_within_token_ended[OF assms])
  show ?thesis
    using lc chunk_code_Some[of parse source body scc]
    by (auto simp: cluster_chunks_def)
qed

lemma hd_join: "xs \<noteq> [] \<Longrightarrow> hd xs \<noteq> [] \<Longrightarrow> hd (join sep xs) = hd (hd xs)"
  by (induction sep xs rule: join.induct) simp_all

lemma join_nonempty: "xs \<noteq> [] \<Longrightarrow> last xs \<noteq> [] \<Longrightarrow> join sep xs \<noteq> []"
  by (induction sep xs rule: join.induct) simp_all

lemma last_join: "xs \<noteq> [] \<Longrightarrow> last xs \<noteq> [] \<Longrightarrow> last (join sep xs) = last (last xs)"
proof (induction sep xs rule: join.induct)
  case (3 sep x y ys)
  then have "join sep (y # ys) \<noteq> []" using join_nonempty[of "y # ys" sep] by simp
  with 3 show ?case by simp
qed simp_all

lemma lines100_facts:
  "length (part1_100 @ part2_100) = 100" "length part1_100 = 55" "part1_100 @ part2_100 \<noteq> []"
  "length part2_100 = 45"
  "last (part1_100 @ part2_100) = str ''        '' @ triple_quote"
  "hd (part1_100 @ part2_100) = str ''def f(x):''"
  by (simp_all add: part1_100_def part2_100_def)

lemma lines100_no_break: "\<forall>l\<in>set (part1_100 @ part2_100). \<forall>c\<in>set l. \<not> is_linebreak c"
  by (simp add: part1_100_def part2_100_def str_def triple_quote_def is_linebreak_def)

lemma splitlines_code100: "splitlines code100 = part1_100 @ part2_100"
  unfolding code100_def
  by (rule splitlines_join_NL[OF lines100_no_break lines100_facts(3)])
     (simp add: lines100_facts triple_quote_def)

lemma code100_ends:
  "code100 \<noteq> []" "hd code100 = 100" "last code100 = 34"
proof -
  have l: "last (part1_100 @ part2_100) \<noteq> []" and h: "hd (part1_100 @ part2_100) \<noteq> []"
    by (simp_all add: lines100_facts str_def triple_quote_def)
  show "code100 \<noteq> []"
    unfolding code100_def by (rule join_nonempty[OF lines100_facts(3) l])
  show "hd code100 = 100"
    unfolding code100_def hd_join[OF lines100_facts(3) h] by (simp add: lines100_facts str_def)
  show "last code100 = 34"
    unfolding code100_def last_join[OF lines100_facts(3) l]
    by (simp add: lines100_facts str_def triple_quote_def)
qed

lemma func_nodes_prog100: "func_nodes prog100 (str ''f'') = Some (Stmt (FunctionDef (str ''f'')
              [Other [Other []],
               Other [Name (str ''y''), Other []],
               Other [Name (str ''x''), Other [Other []]]])
           code100)"
  by (simp add: func_nodes_def prog100_def)

lemma full_code_prog100: "full_code (func_nodes prog100) [str ''f''] = code100 @ [10, 10]"
  by (simp add: full_code_def func_nodes_prog100)

lemma strip_full_code_prog100: "strip (full_code (func_nodes prog100) [str ''f'']) = code100"
proof -
  have "strip ([] @ code100 @ [10, 10]) = code100"
    by (rule strip_core) (simp_all add: code100_ends is_space_def)
  then show ?thesis by (simp add: full_code_prog100)
qed

lemma boundary_lines100:
  "is_boundary (str ''    if x:'')"
  "\<not> is_boundary (str ''a'')"
  "\<not> is_boundary (str ''    '' @ triple_quote)"
  "\<not> is_boundary (str ''        '' @ triple_quote)"
  "\<not> is_boundary (str ''        return '' @ triple_quote)"
  by (simp_all add: is_boundary_def startswith_def KEYWORDS_def str_def strip_def is_space_def
      triple_quote_def)

lemma function_groups_first_flush_tail:
  assumes "is_boundary l" "int (length xs1 + length xs2 + 1) \<ge> n" "int (length xs1) < n"
    and "\<forall>x\<in>set xs2. \<not> is_boundary x"
  shows "function_groups n (xs1 @ xs2 @ l # ys) [] = (xs1 @ xs2 @ [l]) # function_groups n ys []"
proof -
  have "\<forall>i < length (xs1 @ xs2).
          \<not> (is_boundary ((xs1 @ xs2) ! i) \<and> int (length ([]::pystr list) + i + 1) \<ge> n)"
  proof (intro allI impI)
    fix i assume i: "i < length (xs1 @ xs2)"
    show "\<not> (is_boundary ((xs1 @ xs2) ! i) \<and> int (length ([]::pystr list) + i + 1) \<ge> n)"
    proof (cases "i < length xs1")
      case True
      with assms(3) show ?thesis by simp
    next
      case False
      with i have "(xs1 @ xs2) ! i \<in> set xs2" by (simp add: nth_append)
      with assms(4) show ?thesis by blast
    qed
  qed
  from function_groups_first_flush[where buf="[]" and xs="xs1 @ xs2" and l=l and n=n and ys=ys,
      OF assms(1) _ this] assms(2)
  show ?thesis by simp
qed

lemma split_code100:
  "split_large_function code100 50 = [join NL part1_100, join NL part2_100]"
proof -
  let ?xs1 = "[str ''def f(x):'', str ''    y = '' @ triple_quote]"
  let ?xs2 = "replicate 51 (str ''a'') @ [str ''    '' @ triple_quote]"
  have p1: "part1_100 = ?xs1 @ ?xs2 @ [str ''    if x:'']" by (simp add: part1_100_def)
  have "function_groups 50 (?xs1 @ ?xs2 @ str ''    if x:'' # part2_100) []
          = (?xs1 @ ?xs2 @ [str ''    if x:'']) # function_groups 50 part2_100 []"
    by (rule function_groups_first_flush_tail) (simp_all add: boundary_lines100)
  moreover have "function_groups 50 part2_100 [] = [[] @ part2_100]"
    by (rule function_groups_no_boundary) (simp_all add: part2_100_def boundary_lines100)
  ultimately have "function_groups 50 (part1_100 @ part2_100) [] = [part1_100, part2_100]"
    by (simp add: p1)
  then show ?thesis
    by (simp add: split_large_function_def splitlines_code100 lines100_facts function_loop_groups)
qed

lemma cluster_chunks_prog100:
  "cluster_chunks (func_nodes prog100) [str ''f''] = [join NL part1_100, join NL part2_100]"
proof -
  have "\<not> is_linebreak (last code100)" by (simp add: code100_ends is_linebreak_def)
  from splitlines_unterminated_NL[OF code100_ends(1) this, of "[10]"]
  have "splitlines (code100 @ [10, 10]) = splitlines code100 @ [[]]"
    using splitlines_break[of 10 "[]"] by (simp add: is_linebreak_def)
  then have "length (splitlines (full_code (func_nodes prog100) [str ''f''])) = 101"
    by (simp add: full_code_prog100 splitlines_code100 lines100_facts)
  then show ?thesis
    by (simp add: cluster_chunks_def func_nodes_prog100 split_code100)
qed

lemma chunk_lengths100:
  "int (length (join NL part1_100)) \<le> 16000" "int (length (join NL part2_100)) \<le> 16000"
  by (simp_all add: length_join_NL cost_def part1_100_def part2_100_def str_def triple_quote_def
      sum_list_replicate)

lemma build_graph_prog100: "build_graph prog100 = \<lparr>nodes = [str ''f''], edges = []\<rparr>"
  by (simp add: build_graph_def prog100_def empty_graph_def add_node_def)

lemma scc_listing_prog100: "is_scc_listing (build_graph prog100) [[str ''f'']]"
  unfolding build_graph_prog100 is_scc_listing_def component_of_def mutually_reachable_def
  by auto

lemma chunk_code_prog100:
  "chunk_code (\<lambda>s. Some prog100) (\<lambda>g. [[str ''f'']]) code100
     = Inr [join NL part1_100, join NL part2_100]"
proof -
  have "global_code prog100 = []"
    by (simp add: global_code_def prog100_def is_FunctionDef_def)
  then have "with_global prog100 [join NL part1_100, join NL part2_100]
             = [join NL part1_100, join NL part2_100]"
    by (simp add: with_global_def strip_Nil)
  then show ?thesis
    using chunk_lengths100
    by (simp add: chunk_code_def cluster_chunks_prog100 with_fallback_def final_chunks_def budget_value)
qed

text \<open>
  Claim C5 as stated fails at the threshold: the merged, trimmed text of this cluster has
  exactly 100 lines, which does not exceed 100, and the cluster is split into two chunks.
\<close>

theorem merge_threshold_counterexample:
  "is_scc_listing (build_graph prog100) [[str ''f'']]
   \<and> length (splitlines (strip (full_code (func_nodes prog100) [str ''f'']))) = 100
   \<and> chunk_code (\<lambda>s. Some prog100) (\<lambda>g. [[str ''f'']]) code100
       = Inr [join NL part1_100, join NL part2_100]"
  by (simp add: scc_listing_prog100 strip_full_code_prog100 splitlines_code100 lines100_facts
      chunk_code_prog100)

lemma scc_listing_single_node:
  assumes "is_scc_listing g cs" "set (nodes g) = {f}"
  shows "cs = [[f]]"
proof -
  have comp: "component_of g f = {f}"
    using component_of_self[of f g] component_of_subset[of g f] assms(2) by auto
  have "[f] \<in> set cs"
    by (rule scc_listing_singleton[OF assms(1) _ comp]) (simp add: assms(2))
  moreover have "length cs = 1"
  proof -
    from assms have "set (map set cs) = {{f}}" by (simp add: is_scc_listing_def comp)
    moreover from assms(1) have "distinct (map set cs)" by (simp add: is_scc_listing_def)
    ultimately have "length (map set cs) = card {{f}}" using distinct_card by metis
    then show ?thesis by simp
  qed
  ultimately show ?thesis by (cases cs) auto
qed

lemma final_chunks_single:
  "int (length c) \<le> MAX_TOKENS * APPROX_CHARS_PER_TOKEN \<Longrightarrow> final_chunks [c] = [c]"
  by (simp add: final_chunks_def)

text \<open>
  Claim C6, as the code has it. A source that parses to no statement, or to one statement
  surrounded by whitespace only, whose call graph has no node beside the top-level
  function names, and which stays below the merge threshold and within the character
  budget, gives exactly one chunk: the trimmed source.
\<close>

theorem small_source_single_chunk:
  assumes p: "parse source = Some body"
    and l: "is_scc_listing (build_graph body) (scc (build_graph body))"
    and w: "segments_within source body"
    and shape: "body = [] \<or> (\<exists>st pre post. body = [st] \<and> source = pre @ segment st @ post
                  \<and> (\<forall>c\<in>set pre. is_space c) \<and> (\<forall>c\<in>set post. is_space c))"
    and single: "set (nodes (build_graph body)) = dom (func_nodes body)"
    and lines: "length (splitlines (strip source)) < 100"
    and chars: "int (length (strip source)) \<le> MAX_TOKENS * APPROX_CHARS_PER_TOKEN"
  shows "chunk_code parse scc source = Inr [strip source]"
proof -
  let ?cs = "scc (build_graph body)"
  let ?chunks = "concat (map (cluster_chunks (func_nodes body)) ?cs)"
  have cc: "chunk_code parse scc source
              = Inr (final_chunks (with_fallback source (with_global body ?chunks)))"
    using p by (rule chunk_code_Some)
  from shape show ?thesis
  proof
    assume b: "body = []"
    then have "?cs = []"
      using scc_listing_empty[OF l] by (simp add: build_graph_Nil empty_graph_def)
    moreover have "with_global [] [] = []"
      by (simp add: with_global_def global_code_def strip_Nil)
    ultimately have "with_fallback source (with_global body ?chunks) = [strip source]"
      using b by (simp add: with_fallback_def)
    then show ?thesis using cc chars by (simp add: final_chunks_single)
  next
    assume "\<exists>st pre post. body = [st] \<and> source = pre @ segment st @ post
                  \<and> (\<forall>c\<in>set pre. is_space c) \<and> (\<forall>c\<in>set post. is_space c)"
    then obtain st pre post where b: "body = [st]" and src: "source = pre @ segment st @ post"
      and pre: "\<forall>c\<in>set pre. is_space c" and post: "\<forall>c\<in>set post. is_space c" by blast
    from w b have te: "segment st \<noteq> []" "\<not> is_space (hd (segment st))"
      "\<not> is_space (last (segment st))" by (simp_all add: segments_within_def)
    have ss: "strip source = segment st"
      unfolding src using te pre post by (rule strip_core)
    have sg: "strip ([] @ segment st @ [10, 10]) = segment st"
      using te by (rule strip_core) (simp_all add: is_space_def)
    have "with_fallback source (with_global body ?chunks) = [segment st]"
    proof (cases "tree st")
      case (FunctionDef f children)
      then have fn: "func_nodes body = [f \<mapsto> st]" using b by (simp add: func_nodes_def)
      with single have "set (nodes (build_graph body)) = {f}" by simp
      with l have cs: "?cs = [[f]]" by (rule scc_listing_single_node)
      have fc: "full_code (func_nodes body) [f] = segment st @ [10, 10]"
        by (simp add: full_code_def fn)
      have "length (splitlines (full_code (func_nodes body) [f])) > 100
              \<longleftrightarrow> length (splitlines (strip (full_code (func_nodes body) [f]))) \<ge> 100"
        by (rule full_code_line_count) (rule segments_within_token_ended[OF w])
      with lines have "\<not> length (splitlines (full_code (func_nodes body) [f])) > 100"
        using sg by (simp add: fc ss)
      then have "cluster_chunks (func_nodes body) [f] = [segment st]"
        using sg by (simp add: cluster_chunks_def fc)
      then have ch: "?chunks = [segment st]" by (simp add: cs)
      have "global_code body = []"
        using b FunctionDef by (simp add: global_code_def is_FunctionDef_def)
      then show ?thesis by (simp add: ch with_global_def with_fallback_def strip_Nil)
    next
      case (Call x1 x2)
      then have "func_nodes body = Map.empty" using b by (simp add: func_nodes_def)
      with single have "nodes (build_graph body) = []" by simp
      from scc_listing_empty[OF l this] have ch: "?chunks = []" by simp
      have "global_code body = segment st @ [10, 10]"
        using b Call by (simp add: global_code_def is_FunctionDef_def)
      then show ?thesis using sg te(1) by (simp add: ch with_global_def with_fallback_def)
    next
      case (Name x)
      then have "func_nodes body = Map.empty" using b by (simp add: func_nodes_def)
      with single have "nodes (build_graph body) = []" by simp
      from scc_listing_empty[OF l this] have ch: "?chunks = []" by simp
      have "global_code body = segment st @ [10, 10]"
        using b Name by (simp add: global_code_def is_FunctionDef_def)
      then show ?thesis using sg te(1) by (simp add: ch with_global_def with_fallback_def)
    next
      case (Other x)
      then have "func_nodes body = Map.empty" using b by (simp add: func_nodes_def)
      with single have "nodes (build_graph body) = []" by simp
      from scc_listing_empty[OF l this] have ch: "?chunks = []" by simp
      have "global_code body = segment st @ [10, 10]"
        using b Other by (simp add: global_code_def is_FunctionDef_def)
      then show ?thesis using sg te(1) by (simp add: ch with_global_def with_fallback_def)
    qed
    then show ?thesis using cc chars ss by (simp add: final_chunks_single)
  qed
qed

lemma build_graph_prog_pass: "build_graph prog_pass = \<lparr>nodes = [str ''x''], edges = []\<rparr>"
  by (simp add: build_graph_def prog_pass_def empty_graph_def add_node_def)

theorem small_source_single_chunk_witness:
  "chunk_code (\<lambda>s. Some prog_pass) (\<lambda>g. [[str ''x'']]) (str ''\<newline>def x(): pass\<newline>'')
     = Inr [str ''def x(): pass'']"
proof -
  have s: "strip (str ''\<newline>def x(): pass\<newline>'') = str ''def x(): pass''"
    by (simp add: strip_def str_def is_space_def)
  have "chunk_code (\<lambda>s. Some prog_pass) (\<lambda>g. [[str ''x'']]) (str ''\<newline>def x(): pass\<newline>'')
     = Inr [strip (str ''\<newline>def x(): pass\<newline>'')]"
  proof (rule small_source_single_chunk[where body = prog_pass])
    show "(\<lambda>s. Some prog_pass) (str ''\<newline>def x(): pass\<newline>'') = Some prog_pass" by simp
    show "is_scc_listing (build_graph prog_pass) [[str ''x'']]"
      unfolding build_graph_prog_pass is_scc_listing_def component_of_def mutually_reachable_def
      by auto
    show "segments_within (str ''\<newline>def x(): pass\<newline>'') prog_pass"
      unfolding segments_within_def prog_pass_def
      by (auto simp: str_def is_space_def sublist_def intro!: exI[of _ "[10]"])
    show "prog_pass = [] \<or> (\<exists>st pre post. prog_pass = [st]
            \<and> str ''\<newline>def x(): pass\<newline>'' = pre @ segment st @ post
            \<and> (\<forall>c\<in>set pre. is_space c) \<and> (\<forall>c\<in>set post. is_space c))"
      unfolding prog_pass_def
      by (intro disjI2 exI[of _ "Stmt (FunctionDef (str ''x'') [Other [], Other []]) (str ''def x(): pass'')"]
            exI[of _ "[10]"])
         (simp add: str_def is_space_def)
    have "dom (func_nodes prog_pass) = {str ''x''}"
      by (simp add: func_nodes_def prog_pass_def)
    then show "set (nodes (build_graph prog_pass)) = dom (func_nodes prog_pass)"
      by (simp add: build_graph_prog_pass)
    show "length (splitlines (strip (str ''\<newline>def x(): pass\<newline>''))) < 100"
      unfolding s by (simp add: str_def is_linebreak_def)
    show "int (length (strip (str ''\<newline>def x(): pass\<newline>''))) \<le> MAX_TOKENS * APPROX_CHARS_PER_TOKEN"
      unfolding s by (simp add: str_def budget_value)
  qed
  then show ?thesis by (simp only: s)
qed

text \<open>
  Claim C6 as stated fails on \<^verbatim>\<open>def f(): print()\<close>, one line of 16 characters: the
  result has two chunks, the empty chunk of the cluster \<open>{print}\<close> and the function.
\<close>

theorem small_source_two_chunks_counterexample:
  "is_scc_listing (build_graph prog_print) [[str ''print''], [str ''f'']]
   \<and> chunk_code (\<lambda>s. Some prog_print) (\<lambda>g. [[str ''print''], [str ''f'']]) (str ''def f(): print()'')
       = Inr [[], str ''def f(): print()'']
   \<and> length (splitlines (str ''def f(): print()'')) = 1
   \<and> length (str ''def f(): print()'') = 16"
  by (simp add: scc_listing_prog_print chunk_code_prog_print)
     (simp add: str_def is_linebreak_def)

theorem cluster_merge_threshold_witness:
  "cluster_chunks (func_nodes prog100) [str ''f''] = split_large_function code100 50
   \<and> cluster_chunks (func_nodes prog_print) [str ''f''] = [str ''def f(): print()'']
   \<and> chunk_code (\<lambda>s. Some prog_print) (\<lambda>g. [[str ''print''], [str ''f'']]) (str ''def f(): print()'')
       = Inr [[], str ''def f(): print()'']"
proof (intro conjI)
  have w: "segments_within code100 prog100"
    by (simp add: segments_within_def prog100_def code100_ends is_space_def)
  have "length (splitlines (strip (full_code (func_nodes prog100) [str ''f'']))) \<ge> 100"
    by (simp add: strip_full_code_prog100 splitlines_code100 lines100_facts)
  with cluster_merge_threshold [OF w, of "[str ''f'']"]
  show "cluster_chunks (func_nodes prog100) [str ''f''] = split_large_function code100 50"
    by (simp add: func_nodes_prog100)
next
  have w: "segments_within (str ''def f(): print()'') prog_print"
    by (simp add: segments_within_def prog_print_def str_def is_space_def)
  have fn: "func_nodes prog_print (str ''f'')
              = Some (Stmt (FunctionDef (str ''f'') [Other [], Other [Call (Name (str ''print'')) []]])
                           (str ''def f(): print()''))"
    by (simp add: func_nodes_def prog_print_def)
  have fc: "strip (full_code (func_nodes prog_print) [str ''f'']) = str ''def f(): print()''"
    by (simp add: full_code_def fn) (simp add: strip_def str_def is_space_def)
  have "length (splitlines (strip (full_code (func_nodes prog_print) [str ''f'']))) < 100"
    unfolding fc by (simp add: str_def is_linebreak_def)
  with cluster_merge_threshold [OF w, of "[str ''f'']"]
  show "cluster_chunks (func_nodes prog_print) [str ''f''] = [str ''def f(): print()'']"
    by (simp add: fc)
next
  show "chunk_code (\<lambda>s. Some prog_print) (\<lambda>g. [[str ''print''], [str ''f'']]) (str ''def f(): print()'')
       = Inr [[], str ''def f(): print()'']"
    by (rule chunk_code_prog_print)
qed

section \<open>The lines of the chunks of the structural splitter\<close>

lemma is_boundary_nonempty: "is_boundary l \<Longrightarrow> l \<noteq> []"
  by (auto simp: is_boundary_def startswith_def KEYWORDS_def strip_Nil str_def)

lemma function_groups_last_line:
  assumes "lines \<noteq> []" "last lines \<noteq> []" "g \<in> set (function_groups n lines [])"
  shows "g \<noteq> [] \<and> last g \<noteq> []"
proof -
  let ?gs = "function_groups n lines []"
  have fp: "flush_partition n lines ?gs" by (rule function_groups_flush_partition)
  have ne: "g \<noteq> []" using assms(3) function_groups_nonempty by metis
  from assms(1) have gs: "?gs \<noteq> []"
    using function_groups_concat[of n lines "[]"] by auto
  then have split: "?gs = butlast ?gs @ [last ?gs]" by simp
  have "set ?gs = set (butlast ?gs) \<union> {last ?gs}"
    by (subst split) simp
  then have "g \<in> set (butlast ?gs) \<or> g = last ?gs"
    using assms(3) by blast
  then show ?thesis
  proof
    assume "g \<in> set (butlast ?gs)"
    with fp have "flushes n g (length g - 1)" by (simp add: flush_partition_def)
    then have "is_boundary (last g)" using ne by (simp add: flushes_def last_conv_nth)
    with ne show ?thesis using is_boundary_nonempty by blast
  next
    assume g: "g = last ?gs"
    have "concat ?gs = concat (butlast ?gs) @ last ?gs"
      by (subst split) simp
    then have "last (concat ?gs) = last (last ?gs)"
      using ne g by simp
    then have "last g = last lines" using g by (simp add: function_groups_concat)
    with ne assms(2) show ?thesis by simp
  qed
qed

text \<open>
  Claim C8. When the text has more lines than the line budget, the chunks returned by
  \<open>split_large_function\<close> are the joins of groups of lines that partition the lines of
  the text in order: concatenating the groups gives back the lines, and no group is empty
  (a chunk of zero lines is impossible). When the last line of the text is not empty, the
  same holds of the chunks as texts: none is the empty string, and their lines, one chunk
  after the other, are the lines of the text.
\<close>

theorem split_large_function_partitions_lines:
  assumes "int (length (splitlines code)) > max_lines"
  shows "(\<exists>gs. split_large_function code max_lines = map (join NL) gs
              \<and> concat gs = splitlines code \<and> [] \<notin> set gs)
       \<and> (last (splitlines code) \<noteq> [] \<longrightarrow>
            concat (map splitlines (split_large_function code max_lines)) = splitlines code
            \<and> [] \<notin> set (split_large_function code max_lines))"
proof -
  let ?lines = "splitlines code"
  let ?gs = "function_groups max_lines ?lines []"
  from assms have eq: "split_large_function code max_lines = map (join NL) ?gs"
    by (simp add: split_large_function_def function_loop_groups)
  have c: "concat ?gs = ?lines"
    by (simp add: function_groups_concat)
  have ne: "[] \<notin> set ?gs"
    by (rule function_groups_nonempty)
  have "concat (map splitlines (map (join NL) ?gs)) = ?lines \<and> [] \<notin> set (map (join NL) ?gs)"
    if l: "last ?lines \<noteq> []"
  proof (cases "?lines = []")
    case True
    then show ?thesis by simp
  next
    case False
    have g: "splitlines (join NL g) = g \<and> join NL g \<noteq> []" if "g \<in> set ?gs" for g
    proof -
      from function_groups_last_line[OF False l that] have gl: "g \<noteq> []" "last g \<noteq> []"
        by simp_all
      from that have "set g \<subseteq> set (concat ?gs)" by auto
      then have "set g \<subseteq> set ?lines" by (simp only: c)
      then have "\<forall>x\<in>set g. \<forall>ch\<in>set x. \<not> is_linebreak ch"
        using splitlines_no_break by blast
      then have "splitlines (join NL g) = g" using gl by (rule splitlines_join_NL)
      moreover have "join NL g \<noteq> []" using gl by (rule join_nonempty)
      ultimately show ?thesis by simp
    qed
    then have "map splitlines (map (join NL) ?gs) = ?gs"
      by (simp add: map_idI)
    moreover have "[] \<notin> set (map (join NL) ?gs)"
    proof
      assume "[] \<in> set (map (join NL) ?gs)"
      then obtain x where "x \<in> set ?gs" "join NL x = []" by auto
      with g show False by blast
    qed
    ultimately show ?thesis using c by simp
  qed
  with eq c ne show ?thesis by auto
qed

theorem split_large_function_partitions_lines_witness:
  "(\<exists>gs. split_large_function (str ''a\<newline>if b\<newline>c'') 1 = map (join NL) gs
        \<and> concat gs = [str ''a'', str ''if b'', str ''c''] \<and> [] \<notin> set gs)
   \<and> concat (map splitlines (split_large_function (str ''a\<newline>if b\<newline>c'') 1))
       = [str ''a'', str ''if b'', str ''c'']"
  using split_large_function_partitions_lines [of 1 "str ''a\<newline>if b\<newline>c''"]
  by (simp add: str_def is_linebreak_def)

lemma split_large_function_example:
  "split_large_function (str ''a\<newline>if b\<newline>c'') 1 = [str ''a\<newline>if b'', str ''c'']"
  by (simp add: split_large_function_def str_def is_linebreak_def is_boundary_def strip_def
      is_space_def startswith_def KEYWORDS_def)

end
